theory Spec2Isabelle
  imports Main "HOL-Library.Word"
begin

unbundle bit_operations_syntax

section \<open>lista\_size.c: the data the program handles\<close>

text \<open>
  The program is one function, \<open>main\<close>, that talks to the operating system through
  seven API calls and two console streams. The model keeps the part of the world the
  program can observe or change (the content of the output file and the thread's last-error
  value), a chronological log of every API call with its outcome and of every console
  message, and the local variables \<open>result\<close>, \<open>hFile\<close> and \<open>hFind\<close>.
  What the operating system answers is not decided by the program: it is a parameter of the
  run (the record \<open>os\<close> below).
\<close>

type_synonym DWORD = "32 word"
type_synonym ULONGLONG = "64 word"

text \<open>
  Constants of \<open>windows.h\<close> (not part of the repository; values of the Windows SDK).
\<close>

definition ERROR_NO_MORE_FILES :: DWORD where
  "ERROR_NO_MORE_FILES = 18"

definition ERROR_ALREADY_EXISTS :: DWORD where
  "ERROR_ALREADY_EXISTS = 183"

definition FILE_ATTRIBUTE_DIRECTORY :: DWORD where
  "FILE_ATTRIBUTE_DIRECTORY = 0x10"

definition INT_MAX :: int where
  "INT_MAX = 2147483647"

text \<open>\<open>#define BUFFER_SIZE 512\<close>\<close>

definition BUFFER_SIZE :: int where
  "BUFFER_SIZE = 512"

text \<open>\<open>#define OUTPUT_FILE "C:\\tmp\\lista_sz"\<close> (the backslash is character 0x5C).\<close>

definition TMP_DIR :: string where
  "TMP_DIR = ''C:'' @ [CHR 0x5C] @ ''tmp''"

definition OUTPUT_FILE :: string where
  "OUTPUT_FILE = ''C:'' @ [CHR 0x5C] @ ''tmp'' @ [CHR 0x5C] @ ''lista_sz''"

text \<open>
  Modelled from the spec: the declaration of \<open>WIN32_FIND_DATAA\<close> is in \<open>windows.h\<close>,
  not in the repository. The record has the four fields \<open>main\<close> reads; \<open>cFileName\<close>
  is the zero-terminated string held in the field, without its terminator, and of any
  length (the spec's DirectoryEntry has \<open>name: string\<close> and lets a name be too long for
  the formatting buffer).
\<close>

record WIN32_FIND_DATAA =
  dwFileAttributes :: DWORD
  nFileSizeHigh :: DWORD
  nFileSizeLow :: DWORD
  cFileName :: string

text \<open>
  The two handles of the program. A valid handle is named after the call that returned it.
\<close>

datatype HANDLE = INVALID_HANDLE_VALUE | FileHandle | FindHandle

text \<open>
  What one call of \<open>WriteFile\<close> answers: it fails with a last-error value, or it
  succeeds and stores the number of bytes written in \<open>dwBytesWritten\<close>.
\<close>

datatype write_outcome = WriteFailed DWORD | Written DWORD

text \<open>
  The answers of the operating system during one run. For the calls that return a flag or
  a handle, \<open>None\<close> is success and \<open>Some e\<close> is failure with last-error value \<open>e\<close>.
  \<open>find_first\<close> is the answer of \<open>FindFirstFileA\<close>: an error code or the first entry.
  \<open>find_next\<close> lists the entries that the successive calls of \<open>FindNextFileA\<close> yield;
  the call after the last of them returns 0 with last-error value \<open>find_end\<close>.
  \<open>write_answer k\<close> is the answer to the \<open>k\<close>-th call of \<open>WriteFile\<close>, counted from 0.
\<close>

record os =
  create_directory :: "DWORD option"
  create_file :: "DWORD option"
  find_first :: "DWORD + WIN32_FIND_DATAA"
  find_next :: "WIN32_FIND_DATAA list"
  find_end :: DWORD
  write_answer :: "nat \<Rightarrow> write_outcome"

text \<open>
  The log of a run: each API call with its outcome (for \<open>WriteFile\<close> also the bytes it
  was asked to write, for the two close calls the handle passed), and each message on the
  two console streams.
\<close>

datatype event =
    Stdout string
  | Stderr string
  | CreateDirectoryA "DWORD option"
  | CreateFileA "DWORD option"
  | FindFirstFileA "DWORD option"
  | FindNextFileA "DWORD option"
  | WriteFile string write_outcome
  | FindClose HANDLE
  | CloseHandle HANDLE

text \<open>
  The state of a run. \<open>out_file\<close> is the content of \<open>C:\\tmp\\lista_sz\<close> (\<open>None\<close>:
  the file does not exist); \<open>last_error\<close> is what \<open>GetLastError\<close> returns;
  \<open>writes_done\<close> counts the calls of \<open>WriteFile\<close>; \<open>result\<close>, \<open>hFile\<close> and
  \<open>hFind\<close> are the local variables of \<open>main\<close>.

  What the model takes from the Windows API: a call that fails sets the last-error value
  to the code the operating system answers; a call that succeeds and the console functions
  \<open>printf\<close> and \<open>fprintf\<close> leave it as it is (\<open>main\<close> reads it only after a call
  that failed; between the failed \<open>WriteFile\<close> of line 87 and the read of line 102 lies
  one \<open>fprintf\<close>). \<open>CreateFileA\<close> with \<open>CREATE_ALWAYS\<close> leaves an existing, empty
  file when it succeeds and touches nothing when it fails. \<open>WriteFile\<close> on the fresh
  handle appends: the bytes it reports as written when it succeeds, nothing when it fails.
\<close>

record state =
  out_file :: "string option"
  last_error :: DWORD
  events :: "event list"
  writes_done :: nat
  result :: int
  hFile :: HANDLE
  hFind :: HANDLE

section \<open>Formatting\<close>

text \<open>
  The conversions \<open>%lu\<close> and \<open>%llu\<close> of the C library: unsigned decimal, no leading
  zeros, a single \<open>0\<close> for zero.
\<close>

definition digit_char :: "nat \<Rightarrow> char" where
  "digit_char d = char_of (48 + d)"

fun dec :: "nat \<Rightarrow> string" where
  "dec n = (if n < 10 then [digit_char n] else dec (n div 10) @ [digit_char (n mod 10)])"

declare dec.simps [simp del]

text \<open>Reading a decimal numeral back, to state that \<open>dec\<close> is the decimal rendering.\<close>

definition digit_val :: "char \<Rightarrow> nat" where
  "digit_val c = of_char c - 48"

definition undec :: "string \<Rightarrow> nat" where
  "undec s = foldl (\<lambda>acc c. 10 * acc + digit_val c) 0 s"

definition TAB :: char where "TAB = CHR 0x09"
definition CR :: char where "CR = CHR 0x0D"
definition LF :: char where "LF = CHR 0x0A"

text \<open>
  Line 74: \<open>fileSize = ((ULONGLONG)findFileData.nFileSizeHigh << 32) | findFileData.nFileSizeLow\<close>.
\<close>

definition fileSize :: "WIN32_FIND_DATAA \<Rightarrow> ULONGLONG" where
  "fileSize fd = push_bit 32 (ucast (nFileSizeHigh fd) :: ULONGLONG) OR ucast (nFileSizeLow fd)"

text \<open>The text that the format \<open>"%s\t%llu\r\n"\<close> of line 77 describes.\<close>

definition format_line :: "string \<Rightarrow> ULONGLONG \<Rightarrow> string" where
  "format_line name sz = name @ [TAB] @ dec (unat sz) @ [CR, LF]"

text \<open>
  \<open>snprintf(buffer, bufsz, ...)\<close> of the C library on the text \<open>full\<close> that the format
  describes: it stores at most \<open>bufsz - 1\<close> characters of it (and a terminator) and returns
  the length of the whole text, or a negative value when that length is not an \<open>int\<close>.
  The pair is (return value, string left in the buffer).
\<close>

definition snprintf :: "int \<Rightarrow> string \<Rightarrow> int \<times> string" where
  "snprintf bufsz full =
     (if int (length full) > INT_MAX then - 1 else int (length full),
      take (nat (bufsz - 1)) full)"

section \<open>Console messages\<close>

definition msg_header :: "string list" where
  "msg_header =
     [''========================================'' @ [LF],
      ''UNIPRO - SISTEMAS OPERATIVOS AVANZADOS'' @ [LF],
      ''Actividad 1'' @ [LF],
      ''========================================'' @ [LF, LF]]"

definition msg_mkdir_error :: "DWORD \<Rightarrow> string" where
  "msg_mkdir_error e = ''Error al crear el directorio '' @ TMP_DIR @ '': '' @ dec (unat e) @ [LF]"

definition msg_create_error :: "DWORD \<Rightarrow> string" where
  "msg_create_error e = ''Error al crear el archivo '' @ OUTPUT_FILE @ '': '' @ dec (unat e) @ [LF]"

definition msg_find_error :: "DWORD \<Rightarrow> string" where
  "msg_find_error e =
     ''Error al buscar archivos en el directorio actual: '' @ dec (unat e) @ [LF]"

definition msg_format_error :: "string \<Rightarrow> string" where
  "msg_format_error name = ''Error al formatear la salida para el archivo: '' @ name @ [LF]"

definition msg_write_error :: "DWORD \<Rightarrow> string" where
  "msg_write_error e = ''Error al escribir en el archivo de salida: '' @ dec (unat e) @ [LF]"

definition msg_short_write :: "string \<Rightarrow> string" where
  "msg_short_write name = ''Advertencia: No se escribieron todos los bytes para '' @ name @ [LF]"

text \<open>The letter o with acute accent of the source is the two bytes C3 B3 of UTF-8.\<close>

definition msg_enum_error :: "DWORD \<Rightarrow> string" where
  "msg_enum_error e =
     ''Error durante la enumeraci'' @ [CHR 0xC3, CHR 0xB3] @ ''n de archivos: ''
       @ dec (unat e) @ [LF]"

definition msg_success :: string where
  "msg_success = ''Lista de archivos generada exitosamente en '' @ OUTPUT_FILE @ [LF]"

definition log_event :: "event \<Rightarrow> state \<Rightarrow> state" where
  "log_event ev s = s\<lparr>events := events s @ [ev]\<rparr>"

section \<open>The program\<close>

text \<open>
  How one pass through the body of the \<open>do ... while\<close> ends: \<open>Continue\<close> when control
  reaches the loop condition (by \<open>continue\<close> or at the end of the body), \<open>Break\<close> when the
  body leaves the loop.
\<close>

datatype control = Continue | Break

text \<open>
  Lines 86 to 97, for a line that was formatted into \<open>buffer\<close> with
  \<open>bytesFormatted\<close> characters. \<open>WriteFile\<close> is asked for the first \<open>bytesFormatted\<close>
  bytes of the buffer. When it fails nothing is appended and the last-error value is set;
  when it succeeds with \<open>n\<close> bytes written, the first \<open>n\<close> of the requested bytes are
  appended to the file.
\<close>

definition write_line :: "os \<Rightarrow> WIN32_FIND_DATAA \<Rightarrow> string \<Rightarrow> int \<Rightarrow> state \<Rightarrow> control \<times> state" where
  "write_line E fd buffer bytesFormatted s =
     (let request = take (nat bytesFormatted) buffer;
          answer = write_answer E (writes_done s);
          s1 = log_event (WriteFile request answer) (s\<lparr>writes_done := writes_done s + 1\<rparr>)
      in case answer of
           WriteFailed e \<Rightarrow>
             (Break, (log_event (Stderr (msg_write_error e)) (s1\<lparr>last_error := e\<rparr>))\<lparr>result := 1\<rparr>)
         | Written dwBytesWritten \<Rightarrow>
             (let s2 = s1\<lparr>out_file := map_option (\<lambda>old. old @ take (unat dwBytesWritten) request)
                                       (out_file s1)\<rparr>
              in if dwBytesWritten \<noteq> word_of_int bytesFormatted
                 then (Continue, log_event (Stderr (msg_short_write (cFileName fd))) s2)
                 else (Continue, s2)))"

text \<open>Line 69: the test \<open>findFileData.dwFileAttributes & FILE_ATTRIBUTE_DIRECTORY\<close>.\<close>

definition is_directory :: "WIN32_FIND_DATAA \<Rightarrow> bool" where
  "is_directory fd = (dwFileAttributes fd AND FILE_ATTRIBUTE_DIRECTORY \<noteq> 0)"

text \<open>The line that lines 74 to 78 format for the entry \<open>fd\<close>.\<close>

definition entry_line :: "WIN32_FIND_DATAA \<Rightarrow> string" where
  "entry_line fd = format_line (cFileName fd) (fileSize fd)"

text \<open>Lines 68 to 97: the body of the loop for the entry \<open>fd\<close>.\<close>

definition loop_body :: "os \<Rightarrow> WIN32_FIND_DATAA \<Rightarrow> state \<Rightarrow> control \<times> state" where
  "loop_body E fd s =
     (if is_directory fd then (Continue, s)
      else
        (let (bytesFormatted, buffer) = snprintf BUFFER_SIZE (entry_line fd)
         in if bytesFormatted < 0 \<or> bytesFormatted \<ge> BUFFER_SIZE
            then (Continue, log_event (Stderr (msg_format_error (cFileName fd))) s)
            else write_line E fd buffer bytesFormatted s))"

text \<open>
  Lines 67 to 99: the \<open>do ... while\<close> loop, started on the entry \<open>fd\<close> with the entries
  \<open>rest\<close> still to come from \<open>FindNextFileA\<close>. When the entries are used up
  \<open>FindNextFileA\<close> returns 0 and sets the last-error value.
\<close>

fun enum_loop :: "os \<Rightarrow> WIN32_FIND_DATAA \<Rightarrow> WIN32_FIND_DATAA list \<Rightarrow> state \<Rightarrow> state" where
  "enum_loop E fd [] s =
     (case loop_body E fd s of
        (Break, s') \<Rightarrow> s'
      | (Continue, s') \<Rightarrow> log_event (FindNextFileA (Some (find_end E))) (s'\<lparr>last_error := find_end E\<rparr>))"
| "enum_loop E fd (fd' # rest) s =
     (case loop_body E fd s of
        (Break, s') \<Rightarrow> s'
      | (Continue, s') \<Rightarrow> enum_loop E fd' rest (log_event (FindNextFileA None) s'))"

text \<open>Lines 101 to 121: the check after the loop, the two close calls, the success message.\<close>

definition finish :: "state \<Rightarrow> int \<times> state" where
  "finish s =
     (let dwError = last_error s;
          s1 = (if dwError \<noteq> ERROR_NO_MORE_FILES
                then (log_event (Stderr (msg_enum_error dwError)) s)\<lparr>result := 1\<rparr>
                else s);
          s2 = (if hFind s1 \<noteq> INVALID_HANDLE_VALUE then log_event (FindClose (hFind s1)) s1 else s1);
          s3 = (if hFile s2 \<noteq> INVALID_HANDLE_VALUE then log_event (CloseHandle (hFile s2)) s2 else s2);
          s4 = (if result s3 = 0 then log_event (Stdout msg_success) s3 else s3)
      in (result s4, s4))"

text \<open>
  The state in which \<open>main\<close> starts: the output file and the last-error value are what
  the world holds, the log is empty, the locals have their initial values (lines 17 to 22).
\<close>

definition init_state :: "string option \<Rightarrow> DWORD \<Rightarrow> state" where
  "init_state prior err =
     \<lparr>out_file = prior, last_error = err, events = [], writes_done = 0, result = 0,
      hFile = INVALID_HANDLE_VALUE, hFind = INVALID_HANDLE_VALUE\<rparr>"

text \<open>Lines 24 to 37: the banner and the creation of \<open>C:\\tmp\<close>. \<open>Inl\<close> is an early return.\<close>

definition prepare_directory :: "os \<Rightarrow> state \<Rightarrow> (int \<times> state) + state" where
  "prepare_directory E s =
     (let s0 = s\<lparr>events := events s @ map Stdout msg_header\<rparr>;
          s1 = log_event (CreateDirectoryA (create_directory E)) s0
      in case create_directory E of
           None \<Rightarrow> Inr s1
         | Some e \<Rightarrow>
             (let s2 = s1\<lparr>last_error := e\<rparr>;
                  dwError = last_error s2
              in if dwError \<noteq> ERROR_ALREADY_EXISTS
                 then Inl (1, log_event (Stderr (msg_mkdir_error dwError)) s2)
                 else Inr s2))"

text \<open>
  Lines 39 to 54: \<open>CreateFileA\<close> with \<open>CREATE_ALWAYS\<close>. On success the file exists and
  is empty.
\<close>

definition open_output :: "os \<Rightarrow> state \<Rightarrow> (int \<times> state) + state" where
  "open_output E s =
     (let s1 = log_event (CreateFileA (create_file E)) s
      in case create_file E of
           None \<Rightarrow> Inr (s1\<lparr>out_file := Some [], hFile := FileHandle\<rparr>)
         | Some e \<Rightarrow>
             (let s2 = s1\<lparr>last_error := e, hFile := INVALID_HANDLE_VALUE\<rparr>;
                  dwError = last_error s2
              in Inl (1, log_event (Stderr (msg_create_error dwError)) s2)))"

text \<open>Lines 56 to 64: \<open>FindFirstFileA\<close>; on failure the file handle is closed.\<close>

definition start_enumeration :: "os \<Rightarrow> state \<Rightarrow> (int \<times> state) + (WIN32_FIND_DATAA \<times> state)" where
  "start_enumeration E s =
     (case find_first E of
        Inr fd \<Rightarrow> Inr (fd, (log_event (FindFirstFileA None) s)\<lparr>hFind := FindHandle\<rparr>)
      | Inl e \<Rightarrow>
          (let s1 = (log_event (FindFirstFileA (Some e)) s)\<lparr>last_error := e, hFind := INVALID_HANDLE_VALUE\<rparr>;
               dwError = last_error s1;
               s2 = log_event (Stderr (msg_find_error dwError)) s1
           in Inl (1, log_event (CloseHandle (hFile s2)) s2)))"

text \<open>
  \<open>main\<close>, run by an operating system that answers as \<open>E\<close> says, in a world where
  the output file holds \<open>prior\<close> and the last-error value is \<open>err\<close>. The result is the
  exit status and the final state.
\<close>

definition main :: "os \<Rightarrow> string option \<Rightarrow> DWORD \<Rightarrow> int \<times> state" where
  "main E prior err =
     (case prepare_directory E (init_state prior err) of
        Inl r \<Rightarrow> r
      | Inr s1 \<Rightarrow>
          (case open_output E s1 of
             Inl r \<Rightarrow> r
           | Inr s2 \<Rightarrow>
               (case start_enumeration E s2 of
                  Inl r \<Rightarrow> r
                | Inr (fd, s3) \<Rightarrow> finish (enum_loop E fd (find_next E) s3))))"

section \<open>Vocabulary for the properties\<close>

text \<open>The line of an entry fits when line 80 lets it pass: it is shorter than the buffer.\<close>

definition fits :: "WIN32_FIND_DATAA \<Rightarrow> bool" where
  "fits fd = (int (length (entry_line fd)) < BUFFER_SIZE)"

text \<open>The entries for which the body reaches \<open>WriteFile\<close>.\<close>

definition listed :: "WIN32_FIND_DATAA \<Rightarrow> bool" where
  "listed fd = (\<not> is_directory fd \<and> fits fd)"

text \<open>The entries that the enumeration of a run yields, in order.\<close>

definition entries :: "os \<Rightarrow> WIN32_FIND_DATAA list" where
  "entries E = (case find_first E of Inl e \<Rightarrow> [] | Inr fd \<Rightarrow> fd # find_next E)"

text \<open>Everything in the state but the log and the last-error value.\<close>

definition core :: "state \<Rightarrow> string option \<times> nat \<times> int \<times> HANDLE \<times> HANDLE" where
  "core s = (out_file s, writes_done s, result s, hFile s, hFind s)"

text \<open>
  The fatal conditions, read off the log: a directory creation that failed with another
  code than already-exists, a failed creation of the output file, a failed start of the
  enumeration, a failed write, an enumeration that ended with another code than
  no-more-files.
\<close>

fun fatal_event :: "event \<Rightarrow> bool" where
  "fatal_event (CreateDirectoryA (Some e)) = (e \<noteq> ERROR_ALREADY_EXISTS)"
| "fatal_event (CreateFileA (Some e)) = True"
| "fatal_event (FindFirstFileA (Some e)) = True"
| "fatal_event (WriteFile request (WriteFailed e)) = True"
| "fatal_event (FindNextFileA (Some e)) = (e \<noteq> ERROR_NO_MORE_FILES)"
| "fatal_event _ = False"

fun write_failed :: "event \<Rightarrow> bool" where
  "write_failed (WriteFile request (WriteFailed e)) = True"
| "write_failed _ = False"

text \<open>A write that succeeded with fewer bytes than requested.\<close>

fun short_write :: "event \<Rightarrow> bool" where
  "short_write (WriteFile request (Written n)) = (unat n < length request)"
| "short_write _ = False"

text \<open>The calls that acquire or release a handle.\<close>

fun handle_event :: "event \<Rightarrow> bool" where
  "handle_event (CreateFileA r) = True"
| "handle_event (FindFirstFileA r) = True"
| "handle_event (FindClose h) = True"
| "handle_event (CloseHandle h) = True"
| "handle_event _ = False"

text \<open>The two calls that release a handle.\<close>

fun is_close :: "event \<Rightarrow> bool" where
  "is_close (FindClose h) = True"
| "is_close (CloseHandle h) = True"
| "is_close _ = False"

text \<open>The bytes that a logged call put into the output file, and those of a whole log.\<close>

fun bytes_written :: "event \<Rightarrow> string" where
  "bytes_written (WriteFile request (Written n)) = take (unat n) request"
| "bytes_written _ = []"

definition file_of_log :: "event list \<Rightarrow> string" where
  "file_of_log evs = concat (map bytes_written evs)"

text \<open>
  Directory preparation lets the run go on: \<open>CreateDirectoryA\<close> succeeded or failed
  with already-exists (lines 31 to 37).
\<close>

definition directory_ready :: "os \<Rightarrow> bool" where
  "directory_ready E =
     (case create_directory E of None \<Rightarrow> True | Some e \<Rightarrow> e = ERROR_ALREADY_EXISTS)"

text \<open>
  The fatal conditions, read off the answers of the operating system. No fatal condition
  occurs when directory preparation lets the run go on, the output file is created, the
  enumeration starts, none of the writes that the run asks for gets a failure as answer
  (the run asks for one write per listed entry, so these are the first answers, as many as
  there are listed entries), and the enumeration ends with the no-more-files code.
\<close>

fun failed_answer :: "write_outcome \<Rightarrow> bool" where
  "failed_answer (WriteFailed e) = True"
| "failed_answer (Written n) = False"

definition no_fatal_condition :: "os \<Rightarrow> bool" where
  "no_fatal_condition E =
     (directory_ready E \<and> create_file E = None
      \<and> (case find_first E of Inl e \<Rightarrow> False | Inr fd \<Rightarrow> True)
      \<and> list_all (\<lambda>k. \<not> failed_answer (write_answer E k)) [0..<length (filter listed (entries E))]
      \<and> find_end E = ERROR_NO_MORE_FILES)"

text \<open>The state at line 66, when the three setup calls have succeeded.\<close>

definition loop_start :: "os \<Rightarrow> DWORD \<Rightarrow> state" where
  "loop_start E err =
     \<lparr>out_file = Some [],
      last_error = (case create_directory E of None \<Rightarrow> err | Some e \<Rightarrow> e),
      events = map Stdout msg_header
                 @ [CreateDirectoryA (create_directory E), CreateFileA None, FindFirstFileA None],
      writes_done = 0, result = 0, hFile = FileHandle, hFind = FindHandle\<rparr>"

section \<open>Concrete runs\<close>

text \<open>
  The scenario of the spec, with one more file: the pseudo-entry of the directory itself,
  a file \<open>a.txt\<close> of 5 bytes, a subdirectory \<open>sub\<close>, and a file \<open>b.txt\<close> of
  \<open>2 ^ 32 + 2\<close> bytes. The destination directory exists already and every write is
  complete (the two lines have 9 and 18 bytes).
\<close>

definition demo_dot :: WIN32_FIND_DATAA where
  "demo_dot = \<lparr>dwFileAttributes = 0x10, nFileSizeHigh = 0, nFileSizeLow = 0, cFileName = ''.''\<rparr>"

definition demo_file :: WIN32_FIND_DATAA where
  "demo_file = \<lparr>dwFileAttributes = 0x20, nFileSizeHigh = 0, nFileSizeLow = 5, cFileName = ''a.txt''\<rparr>"

definition demo_sub :: WIN32_FIND_DATAA where
  "demo_sub = \<lparr>dwFileAttributes = 0x10, nFileSizeHigh = 0, nFileSizeLow = 0, cFileName = ''sub''\<rparr>"

definition demo_other :: WIN32_FIND_DATAA where
  "demo_other = \<lparr>dwFileAttributes = 0x20, nFileSizeHigh = 1, nFileSizeLow = 2, cFileName = ''b.txt''\<rparr>"

definition demo_answers :: "nat \<Rightarrow> write_outcome" where
  "demo_answers k = (if k = 0 then Written 9 else Written 18)"

definition demo_os :: os where
  "demo_os = \<lparr>create_directory = Some ERROR_ALREADY_EXISTS, create_file = None,
              find_first = Inr demo_dot, find_next = [demo_file, demo_sub, demo_other],
              find_end = ERROR_NO_MORE_FILES, write_answer = demo_answers\<rparr>"

text \<open>The same directory when every write stops after 2 bytes.\<close>

definition writes_two :: "nat \<Rightarrow> write_outcome" where
  "writes_two k = Written 2"

definition demo_short_os :: os where
  "demo_short_os = demo_os\<lparr>write_answer := writes_two\<rparr>"

text \<open>The same directory when the second write fails with code 112 (disk full).\<close>

definition fails_after_first :: "nat \<Rightarrow> write_outcome" where
  "fails_after_first k = (if k = 0 then Written 9 else WriteFailed 112)"

definition demo_full_os :: os where
  "demo_full_os = demo_os\<lparr>write_answer := fails_after_first\<rparr>"

text \<open>A directory with a file whose name has 600 characters, listed before \<open>a.txt\<close>.\<close>

definition demo_long :: WIN32_FIND_DATAA where
  "demo_long = \<lparr>dwFileAttributes = 0x20, nFileSizeHigh = 0, nFileSizeLow = 1,
                cFileName = replicate 600 (CHR ''x'')\<rparr>"

definition demo_long_os :: os where
  "demo_long_os = demo_os\<lparr>find_next := [demo_long, demo_file]\<rparr>"

text \<open>
  Runs in which a setup call fails: the destination directory cannot be created (code 5,
  access denied); the output file cannot be opened (code 32, sharing violation) while the
  directory holds \<open>b.txt\<close> only; the enumeration cannot start (code 2, file not found).
\<close>

definition demo_denied_os :: os where
  "demo_denied_os = demo_os\<lparr>create_directory := Some 5\<rparr>"

definition demo_locked_os :: os where
  "demo_locked_os = demo_os\<lparr>create_file := Some 32, find_next := [demo_other]\<rparr>"

definition demo_unlistable_os :: os where
  "demo_unlistable_os = demo_os\<lparr>find_first := Inl 2\<rparr>"

text \<open>The same directory when the enumeration breaks off with code 5 after the last entry.\<close>

definition demo_broken_os :: os where
  "demo_broken_os = demo_os\<lparr>find_end := 5\<rparr>"

section \<open>Lemmas about the loop body and the loop\<close>

lemma loop_body_directory:
  "is_directory fd \<Longrightarrow> loop_body E fd s = (Continue, s)"
  by (simp add: loop_body_def)

lemma loop_body_overflow:
  "\<not> is_directory fd \<Longrightarrow> \<not> fits fd \<Longrightarrow>
   loop_body E fd s = (Continue, log_event (Stderr (msg_format_error (cFileName fd))) s)"
  by (simp add: loop_body_def fits_def snprintf_def BUFFER_SIZE_def INT_MAX_def)

lemma loop_body_fits:
  "\<not> is_directory fd \<Longrightarrow> fits fd \<Longrightarrow>
   loop_body E fd s = write_line E fd (entry_line fd) (int (length (entry_line fd))) s"
  by (simp add: loop_body_def fits_def snprintf_def BUFFER_SIZE_def INT_MAX_def)

lemma write_line_failed:
  "write_answer E (writes_done s) = WriteFailed e \<Longrightarrow>
   write_line E fd line (int (length line)) s =
     (Break, s\<lparr>last_error := e, events := events s @ [WriteFile line (WriteFailed e), Stderr (msg_write_error e)],
              writes_done := writes_done s + 1, result := 1\<rparr>)"
  by (simp add: write_line_def log_event_def)

lemma write_line_written:
  "write_answer E (writes_done s) = Written n \<Longrightarrow>
   write_line E fd line (int (length line)) s =
     (Continue, s\<lparr>out_file := map_option (\<lambda>old. old @ take (unat n) line) (out_file s),
                 events := events s @ WriteFile line (Written n) #
                    (if n \<noteq> word_of_nat (length line) then [Stderr (msg_short_write (cFileName fd))] else []),
                 writes_done := writes_done s + 1\<rparr>)"
  by (simp add: write_line_def log_event_def)

text \<open>The four ways through the body.\<close>

lemma loop_body_cases [case_names directory overflow failed written]:
  assumes "is_directory fd \<Longrightarrow> loop_body E fd s = (Continue, s) \<Longrightarrow> P"
    and "\<not> is_directory fd \<Longrightarrow> \<not> fits fd \<Longrightarrow>
         loop_body E fd s = (Continue, log_event (Stderr (msg_format_error (cFileName fd))) s) \<Longrightarrow> P"
    and "\<And>e. \<not> is_directory fd \<Longrightarrow> fits fd \<Longrightarrow> write_answer E (writes_done s) = WriteFailed e \<Longrightarrow>
         loop_body E fd s =
           (Break, s\<lparr>last_error := e,
                     events := events s @ [WriteFile (entry_line fd) (WriteFailed e), Stderr (msg_write_error e)],
                     writes_done := writes_done s + 1, result := 1\<rparr>) \<Longrightarrow> P"
    and "\<And>n. \<not> is_directory fd \<Longrightarrow> fits fd \<Longrightarrow> write_answer E (writes_done s) = Written n \<Longrightarrow>
         loop_body E fd s =
           (Continue, s\<lparr>out_file := map_option (\<lambda>old. old @ take (unat n) (entry_line fd)) (out_file s),
                        events := events s @ WriteFile (entry_line fd) (Written n) #
                          (if n \<noteq> word_of_nat (length (entry_line fd))
                           then [Stderr (msg_short_write (cFileName fd))] else []),
                        writes_done := writes_done s + 1\<rparr>) \<Longrightarrow> P"
  shows P
proof (cases "is_directory fd")
  case True
  then show ?thesis using assms(1) loop_body_directory by blast
next
  case nd: False
  show ?thesis
  proof (cases "fits fd")
    case False
    then show ?thesis using nd assms(2) loop_body_overflow by blast
  next
    case True
    show ?thesis
    proof (cases "write_answer E (writes_done s)")
      case (WriteFailed e)
      then show ?thesis
        using nd True assms(3) [of e] by (simp add: loop_body_fits write_line_failed)
    next
      case (Written n)
      then show ?thesis
        using nd True assms(4) [of n] by (simp add: loop_body_fits write_line_written)
    qed
  qed
qed

lemma loop_body_cong:
  assumes "core s = core t"
  shows "fst (loop_body E fd s) = fst (loop_body E fd t)
       \<and> core (snd (loop_body E fd s)) = core (snd (loop_body E fd t))
       \<and> (fst (loop_body E fd s) = Break \<longrightarrow>
            last_error (snd (loop_body E fd s)) = last_error (snd (loop_body E fd t)))
       \<and> (\<exists>new. events (snd (loop_body E fd s)) = events s @ new
                \<and> events (snd (loop_body E fd t)) = events t @ new)"
proof -
  from assms have wd: "writes_done s = writes_done t" by (simp add: core_def)
  show ?thesis
  proof (cases E fd s rule: loop_body_cases)
    case directory
    then show ?thesis using assms by (simp add: loop_body_directory)
  next
    case overflow
    then show ?thesis using assms by (simp add: loop_body_overflow log_event_def core_def)
  next
    case (failed e)
    then show ?thesis using assms wd
      by (simp add: loop_body_fits write_line_failed core_def)
  next
    case (written n)
    then show ?thesis using assms wd
      by (simp add: loop_body_fits write_line_written core_def)
  qed
qed

lemma enum_loop_Break:
  "loop_body E fd s = (Break, s') \<Longrightarrow> enum_loop E fd rest s = s'"
  by (cases rest) simp_all

lemma enum_loop_last:
  "loop_body E fd s = (Continue, s') \<Longrightarrow>
   enum_loop E fd [] s = log_event (FindNextFileA (Some (find_end E))) (s'\<lparr>last_error := find_end E\<rparr>)"
  by simp

lemma enum_loop_next:
  "loop_body E fd s = (Continue, s') \<Longrightarrow>
   enum_loop E fd (fd' # rest) s = enum_loop E fd' rest (log_event (FindNextFileA None) s')"
  by simp

lemma core_log_event [simp]: "core (log_event ev s) = core s"
  by (simp add: core_def log_event_def)

lemma core_last_error [simp]: "core (s\<lparr>last_error := e\<rparr>) = core s"
  by (simp add: core_def)

lemma events_log_event [simp]: "events (log_event ev s) = events s @ [ev]"
  by (simp add: log_event_def)

lemma last_error_log_event [simp]: "last_error (log_event ev s) = last_error s"
  by (simp add: log_event_def)

lemma enum_loop_cong:
  "core s = core t \<Longrightarrow>
   core (enum_loop E fd rest s) = core (enum_loop E fd rest t)
   \<and> last_error (enum_loop E fd rest s) = last_error (enum_loop E fd rest t)
   \<and> (\<exists>new. events (enum_loop E fd rest s) = events s @ new
            \<and> events (enum_loop E fd rest t) = events t @ new)"
proof (induction rest arbitrary: fd s t)
  case Nil
  obtain c s' where bs: "loop_body E fd s = (c, s')" by (cases "loop_body E fd s")
  obtain d t' where bt: "loop_body E fd t = (d, t')" by (cases "loop_body E fd t")
  from loop_body_cong [OF Nil, of E fd] bs bt
  have cd: "d = c" and co: "core s' = core t'"
    and le: "c = Break \<longrightarrow> last_error s' = last_error t'"
    and ev: "\<exists>new. events s' = events s @ new \<and> events t' = events t @ new"
    by simp_all
  show ?case
  proof (cases c)
    case Break
    then show ?thesis using bs bt cd co le ev by (simp add: enum_loop_Break)
  next
    case Continue
    from ev obtain new where "events s' = events s @ new" "events t' = events t @ new" by blast
    then show ?thesis using Continue bs bt cd co by simp
  qed
next
  case (Cons fd' rest)
  obtain c s' where bs: "loop_body E fd s = (c, s')" by (cases "loop_body E fd s")
  obtain d t' where bt: "loop_body E fd t = (d, t')" by (cases "loop_body E fd t")
  from loop_body_cong [OF Cons.prems, of E fd] bs bt
  have cd: "d = c" and co: "core s' = core t'"
    and le: "c = Break \<longrightarrow> last_error s' = last_error t'"
    and ev: "\<exists>new. events s' = events s @ new \<and> events t' = events t @ new"
    by simp_all
  show ?case
  proof (cases c)
    case Break
    then show ?thesis using bs bt cd co le ev by (simp add: enum_loop_Break)
  next
    case Continue
    let ?s = "log_event (FindNextFileA None) s'" and ?t = "log_event (FindNextFileA None) t'"
    from ev obtain new where n: "events s' = events s @ new" "events t' = events t @ new" by blast
    have "core ?s = core ?t" using co by simp
    from Cons.IH [OF this, of fd'] obtain new' where
      "core (enum_loop E fd' rest ?s) = core (enum_loop E fd' rest ?t)"
      "last_error (enum_loop E fd' rest ?s) = last_error (enum_loop E fd' rest ?t)"
      "events (enum_loop E fd' rest ?s) = events ?s @ new'"
      "events (enum_loop E fd' rest ?t) = events ?t @ new'" by blast
    then show ?thesis using Continue bs bt cd n by simp
  qed
qed

text \<open>A Hoare-style rule for the loop: an invariant at the loop condition, a postcondition.\<close>

lemma enum_loop_rule:
  assumes init: "I s"
    and body: "\<And>fd s s'. I s \<Longrightarrow> loop_body E fd s = (Continue, s') \<Longrightarrow> I s'"
    and brk: "\<And>fd s s'. I s \<Longrightarrow> loop_body E fd s = (Break, s') \<Longrightarrow> Q s'"
    and nxt: "\<And>s. I s \<Longrightarrow> I (log_event (FindNextFileA None) s)"
    and fin: "\<And>s. I s \<Longrightarrow>
                Q (log_event (FindNextFileA (Some (find_end E))) (s\<lparr>last_error := find_end E\<rparr>))"
  shows "Q (enum_loop E fd rest s)"
  using init
proof (induction rest arbitrary: fd s)
  case Nil
  obtain c s' where b: "loop_body E fd s = (c, s')" by (cases "loop_body E fd s")
  show ?case
  proof (cases c)
    case Break
    then show ?thesis using b brk [OF Nil] by (simp add: enum_loop_Break)
  next
    case Continue
    then show ?thesis using b body [OF Nil] fin by simp
  qed
next
  case (Cons fd' rest)
  obtain c s' where b: "loop_body E fd s = (c, s')" by (cases "loop_body E fd s")
  show ?case
  proof (cases c)
    case Break
    then show ?thesis using b brk [OF Cons.prems] by (simp add: enum_loop_Break)
  next
    case Continue
    then have "I (log_event (FindNextFileA None) s')" using b body [OF Cons.prems] nxt by blast
    then show ?thesis using Continue b Cons.IH by simp
  qed
qed

lemma loop_body_handles:
  "hFile (snd (loop_body E fd s)) = hFile s \<and> hFind (snd (loop_body E fd s)) = hFind s
   \<and> filter handle_event (events (snd (loop_body E fd s))) = filter handle_event (events s)"
  by (cases E fd s rule: loop_body_cases) (simp_all add: log_event_def)

lemma enum_loop_handles:
  "hFile (enum_loop E fd rest s) = hFile s \<and> hFind (enum_loop E fd rest s) = hFind s
   \<and> filter handle_event (events (enum_loop E fd rest s)) = filter handle_event (events s)"
proof (rule enum_loop_rule [where I = "\<lambda>t. hFile t = hFile s \<and> hFind t = hFind s
        \<and> filter handle_event (events t) = filter handle_event (events s)"])
  show "hFile s = hFile s \<and> hFind s = hFind s
        \<and> filter handle_event (events s) = filter handle_event (events s)" by simp
next
  fix fd t t' assume "hFile t = hFile s \<and> hFind t = hFind s
        \<and> filter handle_event (events t) = filter handle_event (events s)"
    and "loop_body E fd t = (Continue, t')"
  then show "hFile t' = hFile s \<and> hFind t' = hFind s
        \<and> filter handle_event (events t') = filter handle_event (events s)"
    using loop_body_handles [of E fd t] by simp
next
  fix fd t t' assume "hFile t = hFile s \<and> hFind t = hFind s
        \<and> filter handle_event (events t) = filter handle_event (events s)"
    and "loop_body E fd t = (Break, t')"
  then show "hFile t' = hFile s \<and> hFind t' = hFind s
        \<and> filter handle_event (events t') = filter handle_event (events s)"
    using loop_body_handles [of E fd t] by simp
qed (simp_all add: log_event_def)

lemma loop_body_file:
  "out_file s = Some (file_of_log (events s)) \<Longrightarrow>
   out_file (snd (loop_body E fd s)) = Some (file_of_log (events (snd (loop_body E fd s))))"
  by (cases E fd s rule: loop_body_cases) (simp_all add: log_event_def file_of_log_def)

lemma enum_loop_file:
  assumes "out_file s = Some (file_of_log (events s))"
  shows "out_file (enum_loop E fd rest s) = Some (file_of_log (events (enum_loop E fd rest s)))"
proof (rule enum_loop_rule [where I = "\<lambda>t. out_file t = Some (file_of_log (events t))"])
  show "out_file s = Some (file_of_log (events s))" by (rule assms)
next
  fix fd t t' assume "out_file t = Some (file_of_log (events t))" "loop_body E fd t = (Continue, t')"
  then show "out_file t' = Some (file_of_log (events t'))" using loop_body_file [of t E fd] by simp
next
  fix fd t t' assume "out_file t = Some (file_of_log (events t))" "loop_body E fd t = (Break, t')"
  then show "out_file t' = Some (file_of_log (events t'))" using loop_body_file [of t E fd] by simp
qed (simp_all add: log_event_def file_of_log_def)

lemma enum_loop_events_prefix:
  "\<exists>new. events (enum_loop E fd rest s) = events s @ new"
  using enum_loop_cong [of s s E fd rest] by blast

lemma loop_body_fatal:
  assumes "result s = 0" "\<not> list_ex fatal_event (events s)" "loop_body E fd s = (c, s')"
  shows "(c = Continue \<longrightarrow> result s' = 0 \<and> \<not> list_ex fatal_event (events s'))
       \<and> (c = Break \<longrightarrow> result s' = 1 \<and> list_ex fatal_event (events s'))"
  using assms by (cases E fd s rule: loop_body_cases) (auto simp: log_event_def split: if_splits)

lemma enum_loop_fatal:
  assumes "result s = 0" "\<not> list_ex fatal_event (events s)"
  shows "(result (enum_loop E fd rest s) = 1 \<and> list_ex fatal_event (events (enum_loop E fd rest s)))
       \<or> (result (enum_loop E fd rest s) = 0
          \<and> (list_ex fatal_event (events (enum_loop E fd rest s))
               \<longleftrightarrow> last_error (enum_loop E fd rest s) \<noteq> ERROR_NO_MORE_FILES))"
proof (rule enum_loop_rule [where I = "\<lambda>t. result t = 0 \<and> \<not> list_ex fatal_event (events t)"])
  show "result s = 0 \<and> \<not> list_ex fatal_event (events s)" using assms by simp
next
  fix fd t t' assume "result t = 0 \<and> \<not> list_ex fatal_event (events t)" "loop_body E fd t = (Continue, t')"
  then show "result t' = 0 \<and> \<not> list_ex fatal_event (events t')"
    using loop_body_fatal [of t E fd Continue t'] by simp
next
  fix fd t t' assume "result t = 0 \<and> \<not> list_ex fatal_event (events t)" "loop_body E fd t = (Break, t')"
  then show "result t' = 1 \<and> list_ex fatal_event (events t')
        \<or> result t' = 0 \<and> (list_ex fatal_event (events t') \<longleftrightarrow> last_error t' \<noteq> ERROR_NO_MORE_FILES)"
    using loop_body_fatal [of t E fd Break t'] by simp
qed (auto simp: log_event_def)

lemma loop_body_write_failed:
  assumes "\<not> list_ex write_failed (events s)" "loop_body E fd s = (c, s')"
  shows "(c = Continue \<longrightarrow> \<not> list_ex write_failed (events s') \<and> result s' = result s)
       \<and> (c = Break \<longrightarrow> (\<exists>request e.
              events s' = events s @ [WriteFile request (WriteFailed e), Stderr (msg_write_error e)]
              \<and> result s' = 1 \<and> last_error s' = e))"
  using assms by (cases E fd s rule: loop_body_cases) (auto simp: log_event_def split: if_splits)

lemma enum_loop_write_failed:
  assumes "\<not> list_ex write_failed (events s)"
  shows "(\<not> list_ex write_failed (events (enum_loop E fd rest s))
          \<and> result (enum_loop E fd rest s) = result s
          \<and> last_error (enum_loop E fd rest s) = find_end E)
       \<or> (\<exists>pre request e.
            events (enum_loop E fd rest s)
              = pre @ [WriteFile request (WriteFailed e), Stderr (msg_write_error e)]
            \<and> \<not> list_ex write_failed pre
            \<and> result (enum_loop E fd rest s) = 1 \<and> last_error (enum_loop E fd rest s) = e)"
proof (rule enum_loop_rule [where I = "\<lambda>t. \<not> list_ex write_failed (events t) \<and> result t = result s"])
  show "\<not> list_ex write_failed (events s) \<and> result s = result s" using assms by simp
next
  fix fd t t' assume "\<not> list_ex write_failed (events t) \<and> result t = result s"
    "loop_body E fd t = (Continue, t')"
  then show "\<not> list_ex write_failed (events t') \<and> result t' = result s"
    using loop_body_write_failed [of t E fd Continue t'] by simp
next
  fix fd t t' assume a: "\<not> list_ex write_failed (events t) \<and> result t = result s"
    "loop_body E fd t = (Break, t')"
  then obtain request e where
    "events t' = events t @ [WriteFile request (WriteFailed e), Stderr (msg_write_error e)]"
    "result t' = 1" "last_error t' = e"
    using loop_body_write_failed [of t E fd Break t'] by auto
  then show "\<not> list_ex write_failed (events t') \<and> result t' = result s \<and> last_error t' = find_end E
     \<or> (\<exists>pre request e.
            events t' = pre @ [WriteFile request (WriteFailed e), Stderr (msg_write_error e)]
            \<and> \<not> list_ex write_failed pre \<and> result t' = 1 \<and> last_error t' = e)"
    using a by blast
qed (auto simp: log_event_def)

lemma loop_body_output:
  assumes "\<not> list_ex write_failed (events s')" "\<not> list_ex short_write (events s')"
    and "loop_body E fd s = (c, s')"
  shows "c = Continue
       \<and> out_file s' = map_option (\<lambda>old. old @ (if listed fd then entry_line fd else [])) (out_file s)"
  using assms
  by (cases E fd s rule: loop_body_cases)
     (auto simp: log_event_def listed_def option.map_ident split: if_splits)

lemma enum_loop_output:
  assumes "\<not> list_ex write_failed (events (enum_loop E fd rest s))"
    and "\<not> list_ex short_write (events (enum_loop E fd rest s))"
  shows "out_file (enum_loop E fd rest s)
       = map_option (\<lambda>old. old @ concat (map entry_line (filter listed (fd # rest)))) (out_file s)"
  using assms
proof (induction rest arbitrary: fd s)
  case Nil
  obtain c s' where b: "loop_body E fd s = (c, s')" by (cases "loop_body E fd s")
  have ok: "\<not> list_ex write_failed (events s') \<and> \<not> list_ex short_write (events s')"
    using Nil b by (cases c) (simp_all add: enum_loop_Break)
  with loop_body_output [OF _ _ b] have c: "c = Continue"
    and o: "out_file s' = map_option (\<lambda>old. old @ (if listed fd then entry_line fd else [])) (out_file s)"
    by simp_all
  show ?case using b c o by (simp add: log_event_def)
next
  case (Cons fd' rest)
  obtain c s' where b: "loop_body E fd s = (c, s')" by (cases "loop_body E fd s")
  let ?s = "log_event (FindNextFileA None) s'"
  obtain new where new: "events (enum_loop E fd' rest ?s) = events ?s @ new"
    using enum_loop_events_prefix by blast
  have ok: "\<not> list_ex write_failed (events s') \<and> \<not> list_ex short_write (events s')"
  proof (cases c)
    case Break
    then show ?thesis using Cons.prems b by (simp add: enum_loop_Break)
  next
    case Continue
    then show ?thesis using Cons.prems b new by simp
  qed
  with loop_body_output [OF _ _ b] have c: "c = Continue"
    and o: "out_file s' = map_option (\<lambda>old. old @ (if listed fd then entry_line fd else [])) (out_file s)"
    by simp_all
  have "out_file (enum_loop E fd' rest ?s)
        = map_option (\<lambda>old. old @ concat (map entry_line (filter listed (fd' # rest)))) (out_file ?s)"
    using Cons.IH [of fd' ?s] Cons.prems b c by simp
  then show ?case using b c o by (simp add: log_event_def option.map_comp comp_def)
qed

subsection \<open>The four ways through main\<close>

lemma main_directory_failed:
  assumes "create_directory E = Some e" "e \<noteq> ERROR_ALREADY_EXISTS"
  shows "main E prior err =
     (1, \<lparr>out_file = prior, last_error = e,
          events = map Stdout msg_header @ [CreateDirectoryA (Some e), Stderr (msg_mkdir_error e)],
          writes_done = 0, result = 0,
          hFile = INVALID_HANDLE_VALUE, hFind = INVALID_HANDLE_VALUE\<rparr>)"
  using assms by (simp add: main_def prepare_directory_def init_state_def log_event_def)

lemma main_create_failed:
  assumes "directory_ready E" "create_file E = Some e"
  shows "main E prior err =
     (1, \<lparr>out_file = prior, last_error = e,
          events = map Stdout msg_header
                     @ [CreateDirectoryA (create_directory E), CreateFileA (Some e),
                        Stderr (msg_create_error e)],
          writes_done = 0, result = 0,
          hFile = INVALID_HANDLE_VALUE, hFind = INVALID_HANDLE_VALUE\<rparr>)"
  using assms
  by (auto simp: main_def prepare_directory_def open_output_def init_state_def log_event_def
        directory_ready_def split: option.splits)

lemma main_find_failed:
  assumes "directory_ready E" "create_file E = None" "find_first E = Inl e"
  shows "main E prior err =
     (1, \<lparr>out_file = Some [], last_error = e,
          events = map Stdout msg_header
                     @ [CreateDirectoryA (create_directory E), CreateFileA None,
                        FindFirstFileA (Some e), Stderr (msg_find_error e), CloseHandle FileHandle],
          writes_done = 0, result = 0,
          hFile = FileHandle, hFind = INVALID_HANDLE_VALUE\<rparr>)"
  using assms
  by (auto simp: main_def prepare_directory_def open_output_def start_enumeration_def
        init_state_def log_event_def directory_ready_def split: option.splits)

lemma main_enumerating:
  assumes "directory_ready E" "create_file E = None" "find_first E = Inr fd"
  shows "main E prior err = finish (enum_loop E fd (find_next E) (loop_start E err))"
  using assms
  by (auto simp: main_def prepare_directory_def open_output_def start_enumeration_def
        init_state_def log_event_def directory_ready_def loop_start_def split: option.splits)

lemma main_cases [case_names directory_failed create_failed find_failed enumerating]:
  assumes "\<And>e. create_directory E = Some e \<Longrightarrow> e \<noteq> ERROR_ALREADY_EXISTS \<Longrightarrow> P"
    and "\<And>e. directory_ready E \<Longrightarrow> create_file E = Some e \<Longrightarrow> P"
    and "\<And>e. directory_ready E \<Longrightarrow> create_file E = None \<Longrightarrow> find_first E = Inl e \<Longrightarrow> P"
    and "\<And>fd. directory_ready E \<Longrightarrow> create_file E = None \<Longrightarrow> find_first E = Inr fd \<Longrightarrow> P"
  shows P
proof (cases "directory_ready E")
  case False
  then show ?thesis using assms(1) by (auto simp: directory_ready_def split: option.splits)
next
  case True
  then show ?thesis using assms(2-4) by (cases "create_file E"; cases "find_first E") auto
qed

lemma finish_open:
  assumes "hFile s = FileHandle" "hFind s = FindHandle"
  shows "finish s =
     (if last_error s \<noteq> ERROR_NO_MORE_FILES then 1 else result s,
      s\<lparr>events := events s
           @ (if last_error s \<noteq> ERROR_NO_MORE_FILES then [Stderr (msg_enum_error (last_error s))] else [])
           @ [FindClose FindHandle, CloseHandle FileHandle]
           @ (if (if last_error s \<noteq> ERROR_NO_MORE_FILES then 1 else result s) = 0
              then [Stdout msg_success] else []),
         result := (if last_error s \<noteq> ERROR_NO_MORE_FILES then 1 else result s)\<rparr>)"
  using assms by (simp add: finish_def log_event_def Let_def)

lemma loop_start_simps [simp]:
  "hFile (loop_start E err) = FileHandle" "hFind (loop_start E err) = FindHandle"
  "result (loop_start E err) = 0" "writes_done (loop_start E err) = 0"
  "out_file (loop_start E err) = Some []"
  "events (loop_start E err) = map Stdout msg_header
       @ [CreateDirectoryA (create_directory E), CreateFileA None, FindFirstFileA None]"
  by (simp_all add: loop_start_def)

lemma msg_success_not_header: "msg_success \<notin> set msg_header"
  by (simp add: msg_success_def msg_header_def)

lemma loop_body_stdout:
  "Stdout m \<notin> set (events s) \<Longrightarrow> Stdout m \<notin> set (events (snd (loop_body E fd s)))"
  by (cases E fd s rule: loop_body_cases) (simp_all add: log_event_def)

lemma enum_loop_stdout:
  assumes "Stdout m \<notin> set (events s)"
  shows "Stdout m \<notin> set (events (enum_loop E fd rest s))"
proof (rule enum_loop_rule [where I = "\<lambda>t. Stdout m \<notin> set (events t)"])
  show "Stdout m \<notin> set (events s)" by (rule assms)
next
  fix fd t t' assume "Stdout m \<notin> set (events t)" "loop_body E fd t = (Continue, t')"
  then show "Stdout m \<notin> set (events t')" using loop_body_stdout [of m t E fd] by simp
next
  fix fd t t' assume "Stdout m \<notin> set (events t)" "loop_body E fd t = (Break, t')"
  then show "Stdout m \<notin> set (events t')" using loop_body_stdout [of m t E fd] by simp
qed (simp_all add: log_event_def)

lemma count_list_0: "x \<notin> set xs \<Longrightarrow> count_list xs x = 0"
  by (induction xs) auto

lemma count_header_success: "count_list (map Stdout msg_header) (Stdout msg_success) = 0"
  using msg_success_not_header by (intro count_list_0) auto

lemma directory_ready_not_fatal:
  "directory_ready E \<Longrightarrow> \<not> fatal_event (CreateDirectoryA (create_directory E))"
  by (cases "create_directory E") (simp_all add: directory_ready_def)

lemma header_not_fatal: "\<not> list_ex fatal_event (map Stdout msg_header)"
  by (simp add: list_ex_iff)

lemma exit_status_lemma:
  "fst (main E prior err) = (if list_ex fatal_event (events (snd (main E prior err))) then 1 else 0)
   \<and> count_list (events (snd (main E prior err))) (Stdout msg_success)
       = (if fst (main E prior err) = 0 then 1 else 0)"
proof (cases E rule: main_cases)
  case (directory_failed e)
  then show ?thesis
    using header_not_fatal directory_ready_not_fatal [of E]
    by (auto simp: main_directory_failed count_header_success)
next
  case (create_failed e)
  then show ?thesis
    using header_not_fatal directory_ready_not_fatal [of E]
    by (auto simp: main_create_failed count_header_success)
next
  case (find_failed e)
  then show ?thesis
    using header_not_fatal directory_ready_not_fatal [of E]
    by (auto simp: main_find_failed count_header_success)
next
  case (enumerating fd)
  let ?start = "loop_start E err"
  let ?s = "enum_loop E fd (find_next E) ?start"
  have nf: "\<not> list_ex fatal_event (events ?start)"
    using header_not_fatal directory_ready_not_fatal [OF enumerating(1)] by simp
  have h: "hFile ?s = FileHandle" "hFind ?s = FindHandle"
    using enum_loop_handles [of E fd "find_next E" ?start] by simp_all
  have "Stdout msg_success \<notin> set (events ?start)" using msg_success_not_header by auto
  then have out: "count_list (events ?s) (Stdout msg_success) = 0"
    by (intro count_list_0 enum_loop_stdout)
  from enum_loop_fatal [of ?start E fd "find_next E"] nf
  have post: "(result ?s = 1 \<and> list_ex fatal_event (events ?s))
       \<or> (result ?s = 0 \<and> (list_ex fatal_event (events ?s) \<longleftrightarrow> last_error ?s \<noteq> ERROR_NO_MORE_FILES))"
    by simp
  show ?thesis
    unfolding main_enumerating [OF enumerating] finish_open [OF h]
    using post out by auto
qed

subsection \<open>Runs that differ in what the loop does not read\<close>

lemma write_line_os_cong:
  "write_answer E' = write_answer E \<Longrightarrow> write_line E' fd buffer k s = write_line E fd buffer k s"
  by (simp add: write_line_def)

lemma loop_body_os_cong:
  "write_answer E' = write_answer E \<Longrightarrow> loop_body E' fd s = loop_body E fd s"
  by (simp add: loop_body_def write_line_os_cong [of E' E] split: prod.splits)

lemma enum_loop_os_cong:
  "write_answer E' = write_answer E \<Longrightarrow> find_end E' = find_end E \<Longrightarrow>
   enum_loop E' fd rest s = enum_loop E fd rest s"
  by (induction rest arbitrary: fd s)
     (simp_all add: loop_body_os_cong [of E' E] split: prod.splits control.splits)

text \<open>
  Two runs of the loop and of the code after it from states that differ only in the log and
  the last-error value: same exit status, same state but for the log, same new log entries.
\<close>

lemma finish_enum_loop_cong:
  assumes "core s = core t" "hFile s = FileHandle" "hFind s = FindHandle"
  shows "fst (finish (enum_loop E fd rest s)) = fst (finish (enum_loop E fd rest t))
       \<and> core (snd (finish (enum_loop E fd rest s))) = core (snd (finish (enum_loop E fd rest t)))
       \<and> last_error (snd (finish (enum_loop E fd rest s)))
           = last_error (snd (finish (enum_loop E fd rest t)))
       \<and> (\<exists>new. events (snd (finish (enum_loop E fd rest s))) = events s @ new
                \<and> events (snd (finish (enum_loop E fd rest t))) = events t @ new)"
proof -
  let ?a = "enum_loop E fd rest s" and ?b = "enum_loop E fd rest t"
  from assms have ht: "hFile t = FileHandle" "hFind t = FindHandle" by (simp_all add: core_def)
  have ha: "hFile ?a = FileHandle" "hFind ?a = FindHandle"
    using enum_loop_handles [of E fd rest s] assms by simp_all
  have hb: "hFile ?b = FileHandle" "hFind ?b = FindHandle"
    using enum_loop_handles [of E fd rest t] ht by simp_all
  from enum_loop_cong [OF assms(1), of E fd rest] obtain new where
    c: "core ?a = core ?b" and l: "last_error ?a = last_error ?b"
    and e: "events ?a = events s @ new" "events ?b = events t @ new" by blast
  from c have r: "result ?a = result ?b" by (simp add: core_def)
  show ?thesis
    unfolding finish_open [OF ha] finish_open [OF hb]
    using c l e r by (simp add: core_def)
qed

lemma finish_core_cong:
  assumes "core s = core t" "last_error s = last_error t"
  shows "fst (finish s) = fst (finish t) \<and> core (snd (finish s)) = core (snd (finish t))"
  using assms by (simp add: finish_def core_def log_event_def Let_def)

lemma length_msg_header [simp]: "length msg_header = 4"
  by (simp add: msg_header_def)

lemma file_of_log_append [simp]: "file_of_log (xs @ ys) = file_of_log xs @ file_of_log ys"
  by (simp add: file_of_log_def)

lemma file_of_log_header [simp]: "file_of_log (map Stdout msg_header) = []"
  by (simp add: file_of_log_def msg_header_def)

lemma file_of_log_simps [simp]:
  "file_of_log [] = []" "file_of_log (ev # evs) = bytes_written ev @ file_of_log evs"
  by (simp_all add: file_of_log_def)

lemma main_out_file_independent:
  assumes "directory_ready E" "create_file E = None"
  shows "out_file (snd (main E prior err)) = out_file (snd (main E prior' err'))"
proof (cases "find_first E")
  case (Inl e)
  then show ?thesis using assms by (simp add: main_find_failed)
next
  case (Inr fd)
  have "core (loop_start E err) = core (loop_start E err')" by (simp add: core_def)
  from finish_enum_loop_cong [OF this, of E fd "find_next E"]
  show ?thesis using assms Inr by (simp add: main_enumerating core_def)
qed

lemma main_out_file_unchanged:
  assumes "\<not> (directory_ready E \<and> create_file E = None)"
  shows "out_file (snd (main E prior err)) = prior"
proof (cases E rule: main_cases)
  case (directory_failed e)
  then show ?thesis by (simp add: main_directory_failed)
next
  case (create_failed e)
  then show ?thesis by (simp add: main_create_failed)
next
  case (find_failed e)
  then show ?thesis using assms by simp
next
  case (enumerating fd)
  then show ?thesis using assms by simp
qed

lemma main_out_file_is_log:
  assumes "directory_ready E" "create_file E = None"
  shows "out_file (snd (main E prior err)) = Some (file_of_log (events (snd (main E prior err))))"
proof (cases "find_first E")
  case (Inl e)
  then show ?thesis using assms by (simp add: main_find_failed)
next
  case (Inr fd)
  let ?a = "enum_loop E fd (find_next E) (loop_start E err)"
  have h: "hFile ?a = FileHandle" "hFind ?a = FindHandle"
    using enum_loop_handles [of E fd "find_next E" "loop_start E err"] by simp_all
  have "out_file (loop_start E err) = Some (file_of_log (events (loop_start E err)))" by simp
  then have "out_file ?a = Some (file_of_log (events ?a))" by (rule enum_loop_file)
  then show ?thesis
    unfolding main_enumerating [OF assms Inr] finish_open [OF h] by simp
qed

lemma or_push_bit_nat:
  assumes "b < 2 ^ k"
  shows "push_bit k (a::nat) OR b = 2 ^ k * a + b"
proof -
  have b: "take_bit k b = b" using assms by (simp add: take_bit_nat_eq_self)
  have "push_bit k a AND b = push_bit k a AND take_bit k b" by (simp add: b)
  also have "\<dots> = 0" by (rule bit_eqI) (auto simp: bit_simps)
  finally have "push_bit k a + b = push_bit k a OR b" by (rule disjunctive_add_eq_or)
  then show ?thesis by (simp add: push_bit_eq_mult mult.commute)
qed

lemma unat_fileSize:
  "unat (fileSize fd) = 2 ^ 32 * unat (nFileSizeHigh fd) + unat (nFileSizeLow fd)"
proof -
  have h: "unat (nFileSizeHigh fd) < 2 ^ 32" and l: "unat (nFileSizeLow fd) < 2 ^ 32"
    using unsigned_less [of "nFileSizeHigh fd"] unsigned_less [of "nFileSizeLow fd"] by simp_all
  have th: "take_bit 64 (unat (nFileSizeHigh fd)) = unat (nFileSizeHigh fd)"
    using h by (intro take_bit_nat_eq_self) simp
  have tl: "take_bit 64 (unat (nFileSizeLow fd)) = unat (nFileSizeLow fd)"
    using l by (intro take_bit_nat_eq_self) simp
  have "push_bit 32 (unat (nFileSizeHigh fd)) < 2 ^ 64"
    using h by (simp add: push_bit_eq_mult)
  then have tp: "take_bit 64 (push_bit 32 (unat (nFileSizeHigh fd))) = push_bit 32 (unat (nFileSizeHigh fd))"
    by (intro take_bit_nat_eq_self) simp
  have "unat (fileSize fd) = push_bit 32 (unat (nFileSizeHigh fd)) OR unat (nFileSizeLow fd)"
    by (simp add: fileSize_def unsigned_or_eq unsigned_push_bit_eq unsigned_ucast_eq th tl tp)
  then show ?thesis using or_push_bit_nat [OF l] by simp
qed

lemma digit_val_digit_char: "d < 10 \<Longrightarrow> digit_val (digit_char d) = d"
  by (simp add: digit_val_def digit_char_def of_char_of)

lemma undec_snoc: "undec (s @ [c]) = 10 * undec s + digit_val c"
  by (simp add: undec_def)

lemma undec_dec: "undec (dec n) = n"
proof (induction n rule: dec.induct)
  case (1 n)
  show ?case
  proof (cases "n < 10")
    case True
    then show ?thesis by (simp add: dec.simps [of n] undec_def digit_val_digit_char)
  next
    case False
    then have "undec (dec (n div 10)) = n div 10" using 1 by simp
    then show ?thesis using False
      by (simp add: dec.simps [of n] undec_snoc digit_val_digit_char)
  qed
qed

lemma write_failed_fatal: "write_failed ev \<Longrightarrow> fatal_event ev"
  by (cases ev rule: write_failed.cases) simp_all

lemma not_fatal_not_write_failed:
  "\<not> list_ex fatal_event evs \<Longrightarrow> \<not> list_ex write_failed evs"
  by (auto simp: list_ex_iff write_failed_fatal)

lemma entries_enumerating: "find_first E = Inr fd \<Longrightarrow> entries E = fd # find_next E"
  by (simp add: entries_def)

lemma main_output_lines:
  assumes "\<not> list_ex fatal_event (events (snd (main E prior err)))"
    and "\<not> list_ex short_write (events (snd (main E prior err)))"
  shows "out_file (snd (main E prior err)) = Some (concat (map entry_line (filter listed (entries E))))"
proof (cases E rule: main_cases)
  case (directory_failed e)
  then show ?thesis using assms(1) by (simp add: main_directory_failed)
next
  case (create_failed e)
  then show ?thesis using assms(1) by (simp add: main_create_failed)
next
  case (find_failed e)
  then show ?thesis using assms(1) by (simp add: main_find_failed)
next
  case (enumerating fd)
  let ?a = "enum_loop E fd (find_next E) (loop_start E err)"
  have h: "hFile ?a = FileHandle" "hFind ?a = FindHandle"
    using enum_loop_handles [of E fd "find_next E" "loop_start E err"] by simp_all
  have m: "main E prior err = finish ?a" by (rule main_enumerating [OF enumerating])
  have "\<not> list_ex fatal_event (events ?a)" "\<not> list_ex short_write (events ?a)"
    using assms unfolding m finish_open [OF h] by simp_all
  then have "\<not> list_ex write_failed (events ?a)" "\<not> list_ex short_write (events ?a)"
    by (simp_all add: not_fatal_not_write_failed)
  then have "out_file ?a
      = map_option (\<lambda>old. old @ concat (map entry_line (filter listed (fd # find_next E))))
          (out_file (loop_start E err))"
    by (rule enum_loop_output)
  then show ?thesis
    unfolding m finish_open [OF h] using enumerating by (simp add: entries_enumerating)
qed

subsection \<open>Handles\<close>

lemma main_handle_log:
  "filter handle_event (events (snd (main E prior err))) =
     (if \<not> directory_ready E then []
      else CreateFileA (create_file E) #
        (if create_file E \<noteq> None then []
         else case find_first E of
                Inl e \<Rightarrow> [FindFirstFileA (Some e), CloseHandle FileHandle]
              | Inr fd \<Rightarrow> [FindFirstFileA None, FindClose FindHandle, CloseHandle FileHandle]))"
proof (cases E rule: main_cases)
  case (directory_failed e)
  then show ?thesis by (simp add: main_directory_failed directory_ready_def)
next
  case (create_failed e)
  then show ?thesis by (simp add: main_create_failed)
next
  case (find_failed e)
  then show ?thesis by (simp add: main_find_failed)
next
  case (enumerating fd)
  let ?a = "enum_loop E fd (find_next E) (loop_start E err)"
  have h: "hFile ?a = FileHandle" "hFind ?a = FindHandle"
    and f: "filter handle_event (events ?a) = filter handle_event (events (loop_start E err))"
    using enum_loop_handles [of E fd "find_next E" "loop_start E err"] by simp_all
  show ?thesis
    unfolding main_enumerating [OF enumerating] finish_open [OF h]
    using enumerating f by simp
qed

lemma count_list_filter: "P x \<Longrightarrow> count_list (filter P xs) x = count_list xs x"
  by (induction xs) auto

lemma filter_is_close: "filter is_close (filter handle_event xs) = filter is_close xs"
proof (induction xs)
  case Nil
  show ?case by simp
next
  case (Cons x xs)
  then show ?case by (cases x) simp_all
qed

subsection \<open>Write failure\<close>

lemma main_write_failure:
  assumes "WriteFile request (WriteFailed e) \<in> set (events (snd (main E prior err)))"
  shows "\<exists>pre. \<not> list_ex write_failed pre
       \<and> events (snd (main E prior err)) =
           pre @ [WriteFile request (WriteFailed e), Stderr (msg_write_error e)]
               @ (if e \<noteq> ERROR_NO_MORE_FILES then [Stderr (msg_enum_error e)] else [])
               @ [FindClose FindHandle, CloseHandle FileHandle]
       \<and> fst (main E prior err) = 1
       \<and> directory_ready E \<and> create_file E = None"
proof (cases E rule: main_cases)
  case (directory_failed c)
  then show ?thesis using assms by (auto simp: main_directory_failed)
next
  case (create_failed c)
  then show ?thesis using assms by (auto simp: main_create_failed)
next
  case (find_failed c)
  then show ?thesis using assms by (auto simp: main_find_failed)
next
  case (enumerating fd)
  let ?a = "enum_loop E fd (find_next E) (loop_start E err)"
  have h: "hFile ?a = FileHandle" "hFind ?a = FindHandle"
    using enum_loop_handles [of E fd "find_next E" "loop_start E err"] by simp_all
  have m: "main E prior err = finish ?a" by (rule main_enumerating [OF enumerating])
  have "\<not> list_ex write_failed (events (loop_start E err))" by (simp add: list_ex_iff)
  from enum_loop_write_failed [OF this, of E fd "find_next E"]
  show ?thesis
  proof (elim disjE conjE exE)
    assume "\<not> list_ex write_failed (events ?a)"
    then have False using assms unfolding m finish_open [OF h]
      by (auto simp: list_ex_iff split: if_splits)
    then show ?thesis ..
  next
    fix pre request' e'
    assume p: "events ?a = pre @ [WriteFile request' (WriteFailed e'), Stderr (msg_write_error e')]"
      "\<not> list_ex write_failed pre" "result ?a = 1" "last_error ?a = e'"
    have eq: "request' = request \<and> e' = e"
      using assms p unfolding m finish_open [OF h]
      by (auto simp: list_ex_iff split: if_splits)
    show ?thesis
      unfolding m finish_open [OF h] using p eq enumerating
      by (intro exI [of _ pre]) simp
  qed
qed

subsection \<open>Entries that reach no write\<close>

lemma loop_body_unlisted:
  "\<not> listed fd \<Longrightarrow> fst (loop_body E fd s) = Continue \<and> core (snd (loop_body E fd s)) = core s"
  by (cases E fd s rule: loop_body_cases) (simp_all add: listed_def)

lemma enum_loop_skip_unlisted:
  assumes "\<not> listed fd'"
  shows "core (enum_loop E fd (fd' # rest) s) = core (enum_loop E fd rest s)
       \<and> last_error (enum_loop E fd (fd' # rest) s) = last_error (enum_loop E fd rest s)"
proof -
  obtain c s' where b: "loop_body E fd s = (c, s')" by (cases "loop_body E fd s")
  show ?thesis
  proof (cases c)
    case Break
    then show ?thesis using b by (simp add: enum_loop_Break)
  next
    case Continue
    let ?s = "log_event (FindNextFileA None) s'"
    obtain d t where d: "loop_body E fd' ?s = (d, t)" by (cases "loop_body E fd' ?s")
    with loop_body_unlisted [OF assms, of E ?s] have dt: "d = Continue" "core t = core s'" by simp_all
    show ?thesis
    proof (cases rest)
      case Nil
      then show ?thesis using Continue b d dt by simp
    next
      case (Cons fd'' r)
      have "core (log_event (FindNextFileA None) t) = core ?s" using dt by simp
      from enum_loop_cong [OF this, of E fd'' r]
      show ?thesis using Continue b d dt Cons by simp
    qed
  qed
qed

lemma enum_loop_skip_first:
  assumes "\<not> listed fd"
  shows "core (enum_loop E fd (fd' # rest) s) = core (enum_loop E fd' rest s)
       \<and> last_error (enum_loop E fd (fd' # rest) s) = last_error (enum_loop E fd' rest s)"
proof -
  obtain c t where b: "loop_body E fd s = (c, t)" by (cases "loop_body E fd s")
  with loop_body_unlisted [OF assms, of E s] have ct: "c = Continue" "core t = core s" by simp_all
  have "core (log_event (FindNextFileA None) t) = core s" using ct by simp
  from enum_loop_cong [OF this, of E fd' rest]
  show ?thesis using b ct by simp
qed

lemma enum_loop_filter_unlisted:
  assumes "\<And>x. \<not> P x \<Longrightarrow> \<not> listed x"
  shows "core (enum_loop E fd rest s) = core (enum_loop E fd (filter P rest) s)
       \<and> last_error (enum_loop E fd rest s) = last_error (enum_loop E fd (filter P rest) s)"
proof (induction rest arbitrary: fd s)
  case Nil
  show ?case by simp
next
  case (Cons fd' rest)
  show ?case
  proof (cases "P fd'")
    case False
    then have "\<not> listed fd'" by (rule assms)
    then show ?thesis using enum_loop_skip_unlisted [of fd' E fd rest s] Cons.IH [of fd s] False by simp
  next
    case True
    obtain c s' where b: "loop_body E fd s = (c, s')" by (cases "loop_body E fd s")
    show ?thesis
    proof (cases c)
      case Break
      then show ?thesis using b by (simp add: enum_loop_Break)
    next
      case Continue
      then show ?thesis using b True Cons.IH [of fd' "log_event (FindNextFileA None) s'"] by simp
    qed
  qed
qed

lemma main_filter_unlisted:
  assumes "\<And>x. \<not> P x \<Longrightarrow> \<not> listed x"
  shows "fst (main E prior err) = fst (main (E\<lparr>find_next := filter P (find_next E)\<rparr>) prior err)
       \<and> out_file (snd (main E prior err))
           = out_file (snd (main (E\<lparr>find_next := filter P (find_next E)\<rparr>) prior err))"
proof (cases E rule: main_cases)
  case (directory_failed e)
  then show ?thesis by (simp add: main_directory_failed)
next
  case (create_failed e)
  then have "directory_ready (E\<lparr>find_next := filter P (find_next E)\<rparr>)"
    by (simp add: directory_ready_def)
  then show ?thesis using create_failed by (simp add: main_create_failed)
next
  case (find_failed e)
  then have "directory_ready (E\<lparr>find_next := filter P (find_next E)\<rparr>)"
    by (simp add: directory_ready_def)
  then show ?thesis using find_failed by (simp add: main_find_failed)
next
  case (enumerating fd)
  let ?E = "E\<lparr>find_next := filter P (find_next E)\<rparr>"
  have r: "directory_ready ?E" using enumerating by (simp add: directory_ready_def)
  have st: "loop_start ?E err = loop_start E err" by (simp add: loop_start_def)
  have l: "enum_loop ?E fd (filter P (find_next E)) (loop_start E err)
           = enum_loop E fd (filter P (find_next E)) (loop_start E err)"
    by (rule enum_loop_os_cong) simp_all
  have m: "main ?E prior err = finish (enum_loop E fd (filter P (find_next E)) (loop_start E err))"
    using main_enumerating [OF r, of fd prior err] enumerating st l by simp
  from enum_loop_filter_unlisted [of P E fd "find_next E" "loop_start E err"] assms
  have "core (enum_loop E fd (find_next E) (loop_start E err))
          = core (enum_loop E fd (filter P (find_next E)) (loop_start E err))"
    "last_error (enum_loop E fd (find_next E) (loop_start E err))
          = last_error (enum_loop E fd (filter P (find_next E)) (loop_start E err))"
    by blast+
  from finish_core_cong [OF this]
  show ?thesis unfolding m main_enumerating [OF enumerating] by (simp add: core_def)
qed

lemma main_skip_first:
  assumes "find_first E = Inr fd" "\<not> listed fd" "find_next E = fd' # rest"
  shows "fst (main E prior err) = fst (main (E\<lparr>find_first := Inr fd', find_next := rest\<rparr>) prior err)
       \<and> out_file (snd (main E prior err))
           = out_file (snd (main (E\<lparr>find_first := Inr fd', find_next := rest\<rparr>) prior err))"
proof (cases E rule: main_cases)
  case (directory_failed e)
  then show ?thesis by (simp add: main_directory_failed)
next
  case (create_failed e)
  then have "directory_ready (E\<lparr>find_first := Inr fd', find_next := rest\<rparr>)"
    by (simp add: directory_ready_def)
  then show ?thesis using create_failed by (simp add: main_create_failed)
next
  case (find_failed e)
  then show ?thesis using assms by simp
next
  case (enumerating fd0)
  let ?E = "E\<lparr>find_first := Inr fd', find_next := rest\<rparr>"
  have fd0: "fd0 = fd" using enumerating assms by simp
  have r: "directory_ready ?E" using enumerating by (simp add: directory_ready_def)
  have st: "loop_start ?E err = loop_start E err" by (simp add: loop_start_def)
  have l: "enum_loop ?E fd' rest (loop_start E err) = enum_loop E fd' rest (loop_start E err)"
    by (rule enum_loop_os_cong) simp_all
  have m: "main ?E prior err = finish (enum_loop E fd' rest (loop_start E err))"
    using main_enumerating [OF r, of fd' prior err] enumerating st l by simp
  from enum_loop_skip_first [OF assms(2), of E fd' rest "loop_start E err"]
  have "core (enum_loop E fd (fd' # rest) (loop_start E err))
          = core (enum_loop E fd' rest (loop_start E err))"
    "last_error (enum_loop E fd (fd' # rest) (loop_start E err))
          = last_error (enum_loop E fd' rest (loop_start E err))"
    by blast+
  from finish_core_cong [OF this]
  show ?thesis unfolding m main_enumerating [OF enumerating] fd0 assms(3) by (simp add: core_def)
qed

subsection \<open>Entries whose line does not fit\<close>

lemma loop_body_events_prefix: "\<exists>new. events (snd (loop_body E fd s)) = events s @ new"
  using loop_body_cong [of s s E fd] by blast

lemma loop_body_Break_write_failed:
  "loop_body E fd s = (Break, s') \<Longrightarrow> list_ex write_failed (events s')"
  by (cases E fd s rule: loop_body_cases) auto

lemma enum_loop_reports_overflow:
  assumes "x \<in> set (fd # rest)" "\<not> is_directory x" "\<not> fits x"
    and "\<not> list_ex write_failed (events (enum_loop E fd rest s))"
  shows "Stderr (msg_format_error (cFileName x)) \<in> set (events (enum_loop E fd rest s))"
  using assms(1,4)
proof (induction rest arbitrary: fd s)
  case Nil
  then have x: "x = fd" by simp
  show ?case using assms(2,3) by (simp add: x loop_body_overflow)
next
  case (Cons fd' rest)
  obtain c s' where b: "loop_body E fd s = (c, s')" by (cases "loop_body E fd s")
  have c: "c = Continue"
  proof (cases c)
    case Break
    then have "list_ex write_failed (events s')" using b loop_body_Break_write_failed by blast
    then show ?thesis using Cons.prems(2) b Break by (simp add: enum_loop_Break)
  qed
  let ?s = "log_event (FindNextFileA None) s'"
  have e: "enum_loop E fd (fd' # rest) s = enum_loop E fd' rest ?s" using b c by simp
  show ?case
  proof (cases "x = fd")
    case True
    then have "Stderr (msg_format_error (cFileName x)) \<in> set (events s')"
      using assms(2,3) b by (auto simp: loop_body_overflow)
    moreover obtain new where "events (enum_loop E fd' rest ?s) = events ?s @ new"
      using enum_loop_events_prefix by blast
    ultimately show ?thesis unfolding e by simp
  next
    case False
    then have "x \<in> set (fd' # rest)" using Cons.prems(1) by simp
    then show ?thesis unfolding e using Cons.IH [of fd' ?s] Cons.prems(2) e by simp
  qed
qed

lemma main_reports_overflow:
  assumes "x \<in> set (entries E)" "\<not> is_directory x" "\<not> fits x"
    and "\<not> list_ex fatal_event (events (snd (main E prior err)))"
  shows "Stderr (msg_format_error (cFileName x)) \<in> set (events (snd (main E prior err)))"
proof (cases E rule: main_cases)
  case (directory_failed e)
  then show ?thesis using assms(4) by (simp add: main_directory_failed)
next
  case (create_failed e)
  then show ?thesis using assms(4) by (simp add: main_create_failed)
next
  case (find_failed e)
  then show ?thesis using assms(4) by (simp add: main_find_failed)
next
  case (enumerating fd)
  let ?a = "enum_loop E fd (find_next E) (loop_start E err)"
  have h: "hFile ?a = FileHandle" "hFind ?a = FindHandle"
    using enum_loop_handles [of E fd "find_next E" "loop_start E err"] by simp_all
  have m: "main E prior err = finish ?a" by (rule main_enumerating [OF enumerating])
  have "\<not> list_ex fatal_event (events ?a)"
    using assms(4) unfolding m finish_open [OF h] by simp
  then have "\<not> list_ex write_failed (events ?a)" by (rule not_fatal_not_write_failed)
  moreover have "x \<in> set (fd # find_next E)" using assms(1) enumerating by (simp add: entries_enumerating)
  ultimately have "Stderr (msg_format_error (cFileName x)) \<in> set (events ?a)"
    using assms(2,3) by (intro enum_loop_reports_overflow)
  then show ?thesis unfolding m finish_open [OF h] by simp
qed

subsection \<open>Short writes\<close>


subsection \<open>The exit status as a function of the answers\<close>

lemma loop_body_result:
  assumes "result s = 0"
  shows "(if listed fd \<and> failed_answer (write_answer E (writes_done s))
          then fst (loop_body E fd s) = Break \<and> result (snd (loop_body E fd s)) = 1
          else fst (loop_body E fd s) = Continue \<and> result (snd (loop_body E fd s)) = 0
               \<and> writes_done (snd (loop_body E fd s))
                    = writes_done s + (if listed fd then 1 else 0))"
  using assms by (cases E fd s rule: loop_body_cases) (simp_all add: listed_def log_event_def)

lemma enum_loop_result:
  assumes "result s = 0"
  shows "if (\<forall>k. writes_done s \<le> k \<and> k < writes_done s + length (filter listed (fd # rest))
               \<longrightarrow> \<not> failed_answer (write_answer E k))
         then result (enum_loop E fd rest s) = 0 \<and> last_error (enum_loop E fd rest s) = find_end E
         else result (enum_loop E fd rest s) = 1"
  using assms
proof (induction rest arbitrary: fd s)
  case Nil
  obtain c s' where b: "loop_body E fd s = (c, s')" by (cases "loop_body E fd s")
  show ?case
  proof (cases "listed fd \<and> failed_answer (write_answer E (writes_done s))")
    case True
    then have "c = Break" "result s' = 1" using loop_body_result [OF Nil, of fd E] b by simp_all
    moreover have "\<not> (\<forall>k. writes_done s \<le> k \<and> k < writes_done s + length (filter listed [fd])
               \<longrightarrow> \<not> failed_answer (write_answer E k))"
      using True by (auto intro: exI [of _ "writes_done s"])
    ultimately show ?thesis using b by (simp add: enum_loop_Break)
  next
    case False
    then have c: "c = Continue" "result s' = 0"
      using loop_body_result [OF Nil, of fd E] b by (auto split: if_splits)
    have "\<forall>k. writes_done s \<le> k \<and> k < writes_done s + length (filter listed [fd])
               \<longrightarrow> \<not> failed_answer (write_answer E k)"
    proof (intro allI impI)
      fix k assume "writes_done s \<le> k \<and> k < writes_done s + length (filter listed [fd])"
      then have "listed fd \<and> k = writes_done s" by (auto split: if_splits)
      then show "\<not> failed_answer (write_answer E k)" using False by simp
    qed
    then show ?thesis using b c by (simp add: log_event_def)
  qed
next
  case (Cons fd' rest)
  obtain c s' where b: "loop_body E fd s = (c, s')" by (cases "loop_body E fd s")
  show ?case
  proof (cases "listed fd \<and> failed_answer (write_answer E (writes_done s))")
    case True
    then have "c = Break" "result s' = 1" using loop_body_result [OF Cons.prems, of fd E] b by simp_all
    moreover have "\<not> (\<forall>k. writes_done s \<le> k
               \<and> k < writes_done s + length (filter listed (fd # fd' # rest))
               \<longrightarrow> \<not> failed_answer (write_answer E k))"
      using True by (auto intro: exI [of _ "writes_done s"])
    ultimately show ?thesis using b by (simp add: enum_loop_Break)
  next
    case False
    then have c: "c = Continue" "result s' = 0"
      and w: "writes_done s' = writes_done s + (if listed fd then 1 else 0)"
      using loop_body_result [OF Cons.prems, of fd E] b by (auto split: if_splits)
    let ?t = "log_event (FindNextFileA None) s'"
    have t: "result ?t = 0" "writes_done ?t = writes_done s + (if listed fd then 1 else 0)"
      using c w by (simp_all add: log_event_def)
    have e: "enum_loop E fd (fd' # rest) s = enum_loop E fd' rest ?t" using b c by simp
    have "(\<forall>k. writes_done s \<le> k \<and> k < writes_done s + length (filter listed (fd # fd' # rest))
               \<longrightarrow> \<not> failed_answer (write_answer E k))
        \<longleftrightarrow> (\<forall>k. writes_done ?t \<le> k \<and> k < writes_done ?t + length (filter listed (fd' # rest))
               \<longrightarrow> \<not> failed_answer (write_answer E k))"
    proof (cases "listed fd")
      case nl: False
      then show ?thesis using t by simp
    next
      case l: True
      then have ok: "\<not> failed_answer (write_answer E (writes_done s))" using False by simp
      have "\<And>k. (writes_done s \<le> k \<and> k < writes_done s + Suc (length (filter listed (fd' # rest))))
              \<longleftrightarrow> (k = writes_done s
                   \<or> (Suc (writes_done s) \<le> k
                       \<and> k < Suc (writes_done s) + length (filter listed (fd' # rest))))"
        by auto
      then show ?thesis using l t ok by auto
    qed
    then show ?thesis unfolding e using Cons.IH [of ?t fd'] t by simp
  qed
qed

lemma exit_status_answers:
  "fst (main E prior err) = 0 \<longleftrightarrow> no_fatal_condition E"
proof (cases E rule: main_cases)
  case (directory_failed e)
  then show ?thesis by (simp add: main_directory_failed no_fatal_condition_def directory_ready_def)
next
  case (create_failed e)
  then show ?thesis by (simp add: main_create_failed no_fatal_condition_def)
next
  case (find_failed e)
  then show ?thesis by (simp add: main_find_failed no_fatal_condition_def)
next
  case (enumerating fd)
  let ?a = "enum_loop E fd (find_next E) (loop_start E err)"
  have h: "hFile ?a = FileHandle" "hFind ?a = FindHandle"
    using enum_loop_handles [of E fd "find_next E" "loop_start E err"] by simp_all
  have m: "main E prior err = finish ?a" by (rule main_enumerating [OF enumerating])
  let ?Q = "\<forall>k. writes_done (loop_start E err) \<le> k
               \<and> k < writes_done (loop_start E err) + length (filter listed (fd # find_next E))
               \<longrightarrow> \<not> failed_answer (write_answer E k)"
  have q: "list_all (\<lambda>k. \<not> failed_answer (write_answer E k)) [0..<length (filter listed (entries E))]
        \<longleftrightarrow> ?Q"
    using enumerating by (auto simp: list_all_iff entries_enumerating)
  have n: "no_fatal_condition E \<longleftrightarrow> ?Q \<and> find_end E = ERROR_NO_MORE_FILES"
    unfolding no_fatal_condition_def q using enumerating by simp
  have r: "result (loop_start E err) = 0" by simp
  show ?thesis
  proof (cases ?Q)
    case True
    then have "result ?a = 0 \<and> last_error ?a = find_end E"
      using enum_loop_result [OF r, of fd "find_next E" E] by simp
    then show ?thesis unfolding m finish_open [OF h] n using True by simp
  next
    case False
    then have "result ?a = 1"
      using enum_loop_result [OF r, of fd "find_next E" E] by simp
    then show ?thesis unfolding m finish_open [OF h] n using False by simp
  qed
qed

subsection \<open>The concrete runs, evaluated\<close>

lemma digit_char_simps:
  "digit_char 0 = CHR ''0''" "digit_char (Suc 0) = CHR ''1''" "digit_char 2 = CHR ''2''"
  "digit_char 3 = CHR ''3''" "digit_char 4 = CHR ''4''" "digit_char 5 = CHR ''5''"
  "digit_char 6 = CHR ''6''" "digit_char 7 = CHR ''7''" "digit_char 8 = CHR ''8''"
  "digit_char 9 = CHR ''9''"
  by (simp_all add: digit_char_def char_of_def bit_Suc_0_iff)

lemma loop_body_listed:
  assumes "\<not> is_directory fd" "fits fd"
  shows "loop_body E fd s =
     (case write_answer E (writes_done s) of
        WriteFailed e \<Rightarrow>
          (Break, s\<lparr>last_error := e,
                    events := events s @ [WriteFile (entry_line fd) (WriteFailed e), Stderr (msg_write_error e)],
                    writes_done := writes_done s + 1, result := 1\<rparr>)
      | Written n \<Rightarrow>
          (Continue, s\<lparr>out_file := map_option (\<lambda>old. old @ take (unat n) (entry_line fd)) (out_file s),
                       events := events s @ WriteFile (entry_line fd) (Written n) #
                         (if n \<noteq> word_of_nat (length (entry_line fd))
                          then [Stderr (msg_short_write (cFileName fd))] else []),
                       writes_done := writes_done s + 1\<rparr>))"
  using assms
  by (cases "write_answer E (writes_done s)")
     (simp_all add: loop_body_fits write_line_failed write_line_written)

lemmas line_defs = entry_line_def format_line_def dec.simps digit_char_simps
  is_directory_def fits_def FILE_ATTRIBUTE_DIRECTORY_def BUFFER_SIZE_def

lemma demo_lines:
  "is_directory demo_dot" "is_directory demo_sub"
  "\<not> is_directory demo_file" "\<not> is_directory demo_other" "\<not> is_directory demo_long"
  "entry_line demo_file = ''a.txt'' @ [TAB] @ ''5'' @ [CR, LF]"
  "entry_line demo_other = ''b.txt'' @ [TAB] @ ''4294967298'' @ [CR, LF]"
  "fits demo_file" "fits demo_other" "\<not> fits demo_long"
  by (simp_all add: line_defs unat_fileSize
        demo_dot_def demo_sub_def demo_file_def demo_other_def demo_long_def)

lemma demo_names: "cFileName demo_file = ''a.txt''" "cFileName demo_other = ''b.txt''"
  by (simp_all add: demo_file_def demo_other_def)

lemma demo_os_fields:
  "directory_ready demo_os" "create_directory demo_os = Some ERROR_ALREADY_EXISTS"
  "create_file demo_os = None" "find_first demo_os = Inr demo_dot"
  "find_next demo_os = [demo_file, demo_sub, demo_other]"
  "find_end demo_os = ERROR_NO_MORE_FILES" "write_answer demo_os = demo_answers"
  by (simp_all add: demo_os_def directory_ready_def ERROR_ALREADY_EXISTS_def ERROR_NO_MORE_FILES_def)

lemmas run_simps = loop_body_directory loop_body_overflow loop_body_listed demo_lines
  loop_start_def finish_def log_event_def demo_os_fields

lemma demo_run:
  "main demo_os prior err =
     (0, \<lparr>out_file = Some (entry_line demo_file @ entry_line demo_other),
          last_error = ERROR_NO_MORE_FILES,
          events = map Stdout msg_header @
            [CreateDirectoryA (Some ERROR_ALREADY_EXISTS), CreateFileA None, FindFirstFileA None,
             FindNextFileA None, WriteFile (entry_line demo_file) (Written 9),
             FindNextFileA None, FindNextFileA None, WriteFile (entry_line demo_other) (Written 18),
             FindNextFileA (Some ERROR_NO_MORE_FILES), FindClose FindHandle, CloseHandle FileHandle,
             Stdout msg_success],
          writes_done = 2, result = 0, hFile = FileHandle, hFind = FindHandle\<rparr>)"
proof -
  have "main demo_os prior err
          = finish (enum_loop demo_os demo_dot (find_next demo_os) (loop_start demo_os err))"
    by (rule main_enumerating) (simp_all add: demo_os_fields)
  then show ?thesis by (simp add: run_simps demo_answers_def)
qed

lemma demo_short_run:
  "main demo_short_os prior err =
     (0, \<lparr>out_file = Some ''a.b.'',
          last_error = ERROR_NO_MORE_FILES,
          events = map Stdout msg_header @
            [CreateDirectoryA (Some ERROR_ALREADY_EXISTS), CreateFileA None, FindFirstFileA None,
             FindNextFileA None, WriteFile (entry_line demo_file) (Written 2),
             Stderr (msg_short_write ''a.txt''),
             FindNextFileA None, FindNextFileA None, WriteFile (entry_line demo_other) (Written 2),
             Stderr (msg_short_write ''b.txt''),
             FindNextFileA (Some ERROR_NO_MORE_FILES), FindClose FindHandle, CloseHandle FileHandle,
             Stdout msg_success],
          writes_done = 2, result = 0, hFile = FileHandle, hFind = FindHandle\<rparr>)"
proof -
  have "main demo_short_os prior err
          = finish (enum_loop demo_short_os demo_dot (find_next demo_short_os)
                      (loop_start demo_short_os err))"
    by (rule main_enumerating) (simp_all add: demo_short_os_def demo_os_def directory_ready_def)
  then show ?thesis
    by (simp add: run_simps demo_short_os_def writes_two_def demo_names)
qed

lemma demo_full_run:
  "main demo_full_os prior err =
     (1, \<lparr>out_file = Some (entry_line demo_file),
          last_error = 112,
          events = map Stdout msg_header @
            [CreateDirectoryA (Some ERROR_ALREADY_EXISTS), CreateFileA None, FindFirstFileA None,
             FindNextFileA None, WriteFile (entry_line demo_file) (Written 9),
             FindNextFileA None, FindNextFileA None,
             WriteFile (entry_line demo_other) (WriteFailed 112),
             Stderr (msg_write_error 112), Stderr (msg_enum_error 112),
             FindClose FindHandle, CloseHandle FileHandle],
          writes_done = 2, result = 1, hFile = FileHandle, hFind = FindHandle\<rparr>)"
proof -
  have "main demo_full_os prior err
          = finish (enum_loop demo_full_os demo_dot (find_next demo_full_os)
                      (loop_start demo_full_os err))"
    by (rule main_enumerating) (simp_all add: demo_full_os_def demo_os_def directory_ready_def)
  then show ?thesis
    by (simp add: run_simps demo_full_os_def fails_after_first_def ERROR_NO_MORE_FILES_def)
qed

lemma demo_long_run:
  "main demo_long_os prior err =
     (0, \<lparr>out_file = Some (entry_line demo_file),
          last_error = ERROR_NO_MORE_FILES,
          events = map Stdout msg_header @
            [CreateDirectoryA (Some ERROR_ALREADY_EXISTS), CreateFileA None, FindFirstFileA None,
             FindNextFileA None, Stderr (msg_format_error (cFileName demo_long)),
             FindNextFileA None, WriteFile (entry_line demo_file) (Written 9),
             FindNextFileA (Some ERROR_NO_MORE_FILES), FindClose FindHandle, CloseHandle FileHandle,
             Stdout msg_success],
          writes_done = 1, result = 0, hFile = FileHandle, hFind = FindHandle\<rparr>)"
proof -
  have "main demo_long_os prior err
          = finish (enum_loop demo_long_os demo_dot (find_next demo_long_os)
                      (loop_start demo_long_os err))"
    by (rule main_enumerating) (simp_all add: demo_long_os_def demo_os_def directory_ready_def)
  then show ?thesis
    by (simp add: run_simps demo_long_os_def demo_answers_def)
qed

lemma demo_denied_run:
  "main demo_denied_os prior err =
     (1, \<lparr>out_file = prior, last_error = 5,
          events = map Stdout msg_header @ [CreateDirectoryA (Some 5), Stderr (msg_mkdir_error 5)],
          writes_done = 0, result = 0,
          hFile = INVALID_HANDLE_VALUE, hFind = INVALID_HANDLE_VALUE\<rparr>)"
  by (rule main_directory_failed) (simp_all add: demo_denied_os_def ERROR_ALREADY_EXISTS_def)

lemma demo_locked_run:
  "main demo_locked_os prior err =
     (1, \<lparr>out_file = prior, last_error = 32,
          events = map Stdout msg_header
                     @ [CreateDirectoryA (Some ERROR_ALREADY_EXISTS), CreateFileA (Some 32),
                        Stderr (msg_create_error 32)],
          writes_done = 0, result = 0,
          hFile = INVALID_HANDLE_VALUE, hFind = INVALID_HANDLE_VALUE\<rparr>)"
  using main_create_failed [of demo_locked_os 32 prior err]
  by (simp add: demo_locked_os_def demo_os_fields directory_ready_def)

lemma demo_unlistable_run:
  "main demo_unlistable_os prior err =
     (1, \<lparr>out_file = Some [], last_error = 2,
          events = map Stdout msg_header
                     @ [CreateDirectoryA (Some ERROR_ALREADY_EXISTS), CreateFileA None,
                        FindFirstFileA (Some 2), Stderr (msg_find_error 2), CloseHandle FileHandle],
          writes_done = 0, result = 0,
          hFile = FileHandle, hFind = INVALID_HANDLE_VALUE\<rparr>)"
  using main_find_failed [of demo_unlistable_os 2 prior err]
  by (simp add: demo_unlistable_os_def demo_os_fields directory_ready_def)

lemma header_no_short_write: "\<not> list_ex short_write (map Stdout msg_header)"
  by (simp add: list_ex_iff)

lemma header_no_handle_event: "filter handle_event (map Stdout msg_header) = []"
  by (simp add: msg_header_def)

lemma header_no_write_failed: "takeWhile (\<lambda>ev. \<not> write_failed ev) (map Stdout msg_header @ evs)
    = map Stdout msg_header @ takeWhile (\<lambda>ev. \<not> write_failed ev) evs"
  by (simp add: msg_header_def)

section \<open>The claims\<close>

text \<open>
  C1, as amended. For every run in which no fatal condition occurs (so setup succeeded) and
  no write is short, the output file holds exactly one line \<open>name TAB size CR LF\<close> for
  each non-directory entry whose line fits the 512-byte buffer, in enumeration order, and
  nothing else. The size is the 64-bit value \<open>(high << 32) | low\<close>, that is
  \<open>2 ^ 32 * high + low\<close>, rendered in unsigned decimal (reading the numeral back gives
  the value).
\<close>

theorem complete_lines_in_enumeration_order:
  assumes "\<not> list_ex fatal_event (events (snd (main E prior err)))"
    and "\<not> list_ex short_write (events (snd (main E prior err)))"
  shows "out_file (snd (main E prior err)) = Some (concat (map entry_line (filter listed (entries E))))
       \<and> entry_line fd = cFileName fd @ [TAB] @ dec (unat (fileSize fd)) @ [CR, LF]
       \<and> unat (fileSize fd) = 2 ^ 32 * unat (nFileSizeHigh fd) + unat (nFileSizeLow fd)
       \<and> undec (dec (unat (fileSize fd))) = unat (fileSize fd)"
  using main_output_lines [OF assms]
  by (simp add: entry_line_def format_line_def unat_fileSize undec_dec)

theorem complete_lines_in_enumeration_order_witness:
  "\<not> list_ex fatal_event (events (snd (main demo_os None 0)))
   \<and> \<not> list_ex short_write (events (snd (main demo_os None 0)))
   \<and> out_file (snd (main demo_os None 0))
       = Some (''a.txt'' @ [TAB] @ ''5'' @ [CR, LF] @ ''b.txt'' @ [TAB] @ ''4294967298'' @ [CR, LF])"
proof -
  have h1: "\<not> list_ex fatal_event (events (snd (main demo_os None 0)))"
    by (simp add: demo_run header_not_fatal)
  have h2: "\<not> list_ex short_write (events (snd (main demo_os None 0)))"
    by (simp add: demo_run header_no_short_write demo_lines)
  have e: "concat (map entry_line (filter listed (entries demo_os)))
           = ''a.txt'' @ [TAB] @ ''5'' @ [CR, LF] @ ''b.txt'' @ [TAB] @ ''4294967298'' @ [CR, LF]"
    by (simp add: entries_def demo_os_fields listed_def demo_lines)
  from complete_lines_in_enumeration_order [OF h1 h2]
  have "out_file (snd (main demo_os None 0))
          = Some (concat (map entry_line (filter listed (entries demo_os))))" by (rule conjunct1)
  then show ?thesis using h1 h2 e by simp
qed

text \<open>
  C1 as stated fails: when every write stops after 2 bytes without an error, setup succeeds,
  no fatal condition occurs and the exit status is 0, yet the non-directory entries
  \<open>a.txt\<close> and \<open>b.txt\<close> leave two bytes each in the file instead of their lines.
\<close>

theorem short_write_leaves_partial_line_counterexample:
  "fst (main demo_short_os None 0) = 0
   \<and> \<not> list_ex fatal_event (events (snd (main demo_short_os None 0)))
   \<and> entries demo_short_os = [demo_dot, demo_file, demo_sub, demo_other]
   \<and> \<not> is_directory demo_file \<and> \<not> is_directory demo_other
   \<and> out_file (snd (main demo_short_os None 0)) = Some ''a.b.''
   \<and> out_file (snd (main demo_short_os None 0)) \<noteq> Some (entry_line demo_file @ entry_line demo_other)"
proof -
  have e: "entries demo_short_os = [demo_dot, demo_file, demo_sub, demo_other]"
    by (simp add: entries_def demo_short_os_def demo_os_fields)
  show ?thesis by (simp add: e demo_short_run header_not_fatal demo_lines)
qed

text \<open>
  C2. No entry classified as a directory produces any byte of output: the loop body leaves
  the whole state as it is for such an entry (nothing is formatted, written or reported),
  and the exit status and the output file of a run are those of the run over the same
  enumeration with the directory entries removed, be it among the entries of
  \<open>FindNextFileA\<close> or the first entry.
\<close>

theorem directories_produce_no_output:
  "(is_directory fd \<longrightarrow> loop_body E fd s = (Continue, s))
   \<and> fst (main E prior err)
       = fst (main (E\<lparr>find_next := filter (\<lambda>x. \<not> is_directory x) (find_next E)\<rparr>) prior err)
   \<and> out_file (snd (main E prior err))
       = out_file (snd (main (E\<lparr>find_next := filter (\<lambda>x. \<not> is_directory x) (find_next E)\<rparr>) prior err))
   \<and> (find_first E = Inr fd \<and> is_directory fd \<and> find_next E = fd' # rest \<longrightarrow>
        fst (main E prior err) = fst (main (E\<lparr>find_first := Inr fd', find_next := rest\<rparr>) prior err)
        \<and> out_file (snd (main E prior err))
            = out_file (snd (main (E\<lparr>find_first := Inr fd', find_next := rest\<rparr>) prior err)))"
proof -
  have a: "\<And>x. \<not> \<not> is_directory x \<Longrightarrow> \<not> listed x" by (simp add: listed_def)
  have b: "is_directory fd \<Longrightarrow> \<not> listed fd" by (simp add: listed_def)
  show ?thesis
    using main_filter_unlisted [of "\<lambda>x. \<not> is_directory x" E prior err, OF a]
      main_skip_first [of E fd fd' rest prior err] b
    by (simp add: loop_body_directory)
qed

theorem directories_produce_no_output_witness:
  "is_directory demo_dot
   \<and> loop_body demo_os demo_dot (loop_start demo_os 0) = (Continue, loop_start demo_os 0)
   \<and> find_first demo_os = Inr demo_dot
   \<and> find_next demo_os = [demo_file, demo_sub, demo_other]
   \<and> out_file (snd (main demo_os None 0))
       = out_file (snd (main (demo_os\<lparr>find_first := Inr demo_file,
                                       find_next := [demo_sub, demo_other]\<rparr>) None 0))"
proof -
  have d: "is_directory demo_dot" by (simp add: demo_lines)
  have f: "find_first demo_os = Inr demo_dot" "find_next demo_os = [demo_file, demo_sub, demo_other]"
    by (simp_all add: demo_os_fields)
  show ?thesis
    using d f directories_produce_no_output [where fd = demo_dot and E = demo_os
        and s = "loop_start demo_os 0" and prior = None and err = 0
        and fd' = demo_file and rest = "[demo_sub, demo_other]"]
    by blast
qed

text \<open>
  C3. For every run, the exit status is 0 if and only if no fatal condition occurred, and 1
  otherwise. The fatal conditions are those of the answers of the operating system: a
  directory creation that fails with another code than already-exists, a failed creation of
  the output file, a failed start of the enumeration, a failed write among the writes the
  run asks for, an enumeration that ends with another code than no-more-files. They are
  also exactly what the log of the run shows as failed calls. The success message naming
  the output path is printed exactly once when the exit status is 0 and not at all
  otherwise.
\<close>

theorem exit_status_zero_iff_no_fatal_condition:
  "(fst (main E prior err) = 0 \<longleftrightarrow> no_fatal_condition E)
   \<and> (fst (main E prior err) = 0 \<longleftrightarrow> \<not> list_ex fatal_event (events (snd (main E prior err))))
   \<and> fst (main E prior err) \<in> {0, 1}
   \<and> count_list (events (snd (main E prior err))) (Stdout msg_success)
       = (if fst (main E prior err) = 0 then 1 else 0)"
  using exit_status_lemma [of E prior err] exit_status_answers [of E prior err]
  by (simp split: if_splits)

theorem exit_status_zero_iff_no_fatal_condition_witness:
  "no_fatal_condition demo_os
   \<and> fst (main demo_os None 0) = 0
   \<and> count_list (events (snd (main demo_os None 0))) (Stdout msg_success) = 1
   \<and> \<not> no_fatal_condition demo_denied_os
   \<and> fst (main demo_denied_os None 0) = 1
   \<and> count_list (events (snd (main demo_denied_os None 0))) (Stdout msg_success) = 0
   \<and> \<not> no_fatal_condition demo_locked_os \<and> fst (main demo_locked_os None 0) = 1
   \<and> \<not> no_fatal_condition demo_unlistable_os \<and> fst (main demo_unlistable_os None 0) = 1
   \<and> \<not> no_fatal_condition demo_full_os \<and> fst (main demo_full_os None 0) = 1
   \<and> \<not> no_fatal_condition demo_broken_os \<and> fst (main demo_broken_os None 0) = 1"
proof -
  have ok: "no_fatal_condition demo_os"
    by (simp add: no_fatal_condition_def demo_os_fields entries_def listed_def demo_lines
          list_all_iff demo_answers_def)
  have denied: "\<not> no_fatal_condition demo_denied_os"
    by (simp add: no_fatal_condition_def demo_denied_os_def directory_ready_def
          ERROR_ALREADY_EXISTS_def)
  have locked: "\<not> no_fatal_condition demo_locked_os"
    by (simp add: no_fatal_condition_def demo_locked_os_def)
  have unlistable: "\<not> no_fatal_condition demo_unlistable_os"
    by (simp add: no_fatal_condition_def demo_unlistable_os_def)
  have "length (filter listed (entries demo_full_os)) = 2"
    by (simp add: entries_def demo_full_os_def demo_os_fields listed_def demo_lines)
  moreover have "failed_answer (write_answer demo_full_os 1)"
    by (simp add: demo_full_os_def fails_after_first_def)
  ultimately have "\<not> list_all (\<lambda>k. \<not> failed_answer (write_answer demo_full_os k))
                      [0..<length (filter listed (entries demo_full_os))]"
    by (auto simp: list_all_iff intro: bexI [of _ 1])
  then have full: "\<not> no_fatal_condition demo_full_os"
    by (simp add: no_fatal_condition_def)
  have broken: "\<not> no_fatal_condition demo_broken_os"
    by (simp add: no_fatal_condition_def demo_broken_os_def ERROR_NO_MORE_FILES_def)
  show ?thesis
    using ok denied locked unlistable full broken
      exit_status_zero_iff_no_fatal_condition [where E = demo_os and prior = None and err = 0]
      exit_status_zero_iff_no_fatal_condition [where E = demo_denied_os and prior = None and err = 0]
      exit_status_zero_iff_no_fatal_condition [where E = demo_locked_os and prior = None and err = 0]
      exit_status_zero_iff_no_fatal_condition [where E = demo_unlistable_os and prior = None and err = 0]
      exit_status_zero_iff_no_fatal_condition [where E = demo_full_os and prior = None and err = 0]
      exit_status_zero_iff_no_fatal_condition [where E = demo_broken_os and prior = None and err = 0]
    by auto
qed

text \<open>
  C4. A failed write is fatal. Whenever the log of a run holds a failed \<open>WriteFile\<close>, the
  log ends right after it: the error message with the code, possibly the message of the
  check after the loop, then the two close calls; no further entry is fetched or written.
  The exit status is 1, and the output file holds exactly what the writes before the
  failure put there.
\<close>

theorem write_failure_is_fatal:
  assumes "WriteFile request (WriteFailed e) \<in> set (events (snd (main E prior err)))"
  shows "events (snd (main E prior err)) =
           takeWhile (\<lambda>ev. \<not> write_failed ev) (events (snd (main E prior err)))
             @ [WriteFile request (WriteFailed e), Stderr (msg_write_error e)]
             @ (if e \<noteq> ERROR_NO_MORE_FILES then [Stderr (msg_enum_error e)] else [])
             @ [FindClose FindHandle, CloseHandle FileHandle]
       \<and> fst (main E prior err) = 1
       \<and> out_file (snd (main E prior err))
           = Some (file_of_log (takeWhile (\<lambda>ev. \<not> write_failed ev) (events (snd (main E prior err)))))"
proof -
  from main_write_failure [OF assms] obtain pre where
    pre: "\<not> list_ex write_failed pre"
    and ev: "events (snd (main E prior err)) =
           pre @ [WriteFile request (WriteFailed e), Stderr (msg_write_error e)]
               @ (if e \<noteq> ERROR_NO_MORE_FILES then [Stderr (msg_enum_error e)] else [])
               @ [FindClose FindHandle, CloseHandle FileHandle]"
    and ex: "fst (main E prior err) = 1"
    and r: "directory_ready E" "create_file E = None" by blast
  have tw: "takeWhile (\<lambda>ev. \<not> write_failed ev) (events (snd (main E prior err))) = pre"
    unfolding ev using pre by (simp add: list_ex_iff)
  have "out_file (snd (main E prior err)) = Some (file_of_log (events (snd (main E prior err))))"
    using r by (rule main_out_file_is_log)
  also have "file_of_log (events (snd (main E prior err))) = file_of_log pre"
    unfolding ev by simp
  finally show ?thesis using ev ex tw by simp
qed

theorem write_failure_is_fatal_witness:
  "WriteFile (entry_line demo_other) (WriteFailed 112) \<in> set (events (snd (main demo_full_os None 0)))
   \<and> fst (main demo_full_os None 0) = 1
   \<and> out_file (snd (main demo_full_os None 0)) = Some (''a.txt'' @ [TAB] @ ''5'' @ [CR, LF])"
proof -
  have h: "WriteFile (entry_line demo_other) (WriteFailed 112)
             \<in> set (events (snd (main demo_full_os None 0)))" by (simp add: demo_full_run)
  have e: "file_of_log (takeWhile (\<lambda>ev. \<not> write_failed ev) (events (snd (main demo_full_os None 0))))
           = ''a.txt'' @ [TAB] @ ''5'' @ [CR, LF]"
    by (simp add: demo_full_run header_no_write_failed demo_lines)
  from write_failure_is_fatal [OF h, THEN conjunct2]
  show ?thesis using h e by simp
qed

text \<open>
  C5. An entry that is not a directory and whose line does not fit the 512-byte buffer is
  skipped: the body only reports the error naming the entry and reaches the loop condition,
  so the loop goes on with the next entry; the state (file, result) is otherwise unchanged.
  Removing the entry from the enumeration changes neither the output file nor the exit
  status, and in a run without fatal condition that enumerates it the exit status is 0 and
  the error is in the log.
\<close>

theorem overlong_entry_is_skipped:
  assumes "\<not> is_directory fd" "BUFFER_SIZE \<le> int (length (entry_line fd))"
  shows "loop_body E fd s = (Continue, log_event (Stderr (msg_format_error (cFileName fd))) s)
       \<and> enum_loop E fd (fd' # rest) s
           = enum_loop E fd' rest
               (log_event (FindNextFileA None) (log_event (Stderr (msg_format_error (cFileName fd))) s))
       \<and> fst (main E prior err)
           = fst (main (E\<lparr>find_next := filter (\<lambda>x. x \<noteq> fd) (find_next E)\<rparr>) prior err)
       \<and> out_file (snd (main E prior err))
           = out_file (snd (main (E\<lparr>find_next := filter (\<lambda>x. x \<noteq> fd) (find_next E)\<rparr>) prior err))
       \<and> (fd \<in> set (entries E) \<and> \<not> list_ex fatal_event (events (snd (main E prior err))) \<longrightarrow>
            fst (main E prior err) = 0
            \<and> Stderr (msg_format_error (cFileName fd)) \<in> set (events (snd (main E prior err))))"
proof -
  from assms(2) have nf: "\<not> fits fd" by (simp add: fits_def)
  then have a: "\<And>x. \<not> x \<noteq> fd \<Longrightarrow> \<not> listed x" by (simp add: listed_def)
  have b: "loop_body E fd s = (Continue, log_event (Stderr (msg_format_error (cFileName fd))) s)"
    using assms(1) nf by (rule loop_body_overflow)
  have c: "\<not> list_ex fatal_event (events (snd (main E prior err))) \<Longrightarrow> fst (main E prior err) = 0"
    using exit_status_lemma [of E prior err] by simp
  show ?thesis
    using main_filter_unlisted [of "\<lambda>x. x \<noteq> fd" E prior err, OF a]
      main_reports_overflow [of fd E prior err] assms(1) nf b c
    by simp
qed

theorem overlong_entry_is_skipped_witness:
  "\<not> is_directory demo_long
   \<and> BUFFER_SIZE \<le> int (length (entry_line demo_long))
   \<and> demo_long \<in> set (entries demo_long_os)
   \<and> fst (main demo_long_os None 0) = 0
   \<and> Stderr (msg_format_error (cFileName demo_long)) \<in> set (events (snd (main demo_long_os None 0)))"
proof -
  have h1: "\<not> is_directory demo_long" by (simp add: demo_lines)
  have h2: "BUFFER_SIZE \<le> int (length (entry_line demo_long))"
    using demo_lines(10) by (simp add: fits_def)
  have h3: "demo_long \<in> set (entries demo_long_os)"
    by (simp add: entries_def demo_long_os_def demo_os_fields)
  have h4: "\<not> list_ex fatal_event (events (snd (main demo_long_os None 0)))"
    by (simp add: demo_long_run header_not_fatal)
  from overlong_entry_is_skipped [OF h1 h2, where E = demo_long_os and prior = None and err = 0]
  show ?thesis using h1 h2 h3 h4 by blast
qed



text \<open>
  C7. When \<open>CreateDirectoryA\<close> fails with already-exists the run goes on to open the
  output file and ends as the run in which the call succeeded: same exit status, same
  output file, same log after the call. When it fails with any other code, the message with
  the code is reported and the program returns 1 at once: the log holds no further call and
  the output file is untouched.
\<close>

theorem directory_preparation_outcomes:
  "(create_directory E = Some ERROR_ALREADY_EXISTS \<longrightarrow>
      fst (main E prior err) = fst (main (E\<lparr>create_directory := None\<rparr>) prior err)
      \<and> out_file (snd (main E prior err)) = out_file (snd (main (E\<lparr>create_directory := None\<rparr>) prior err))
      \<and> take 6 (events (snd (main E prior err)))
          = map Stdout msg_header @ [CreateDirectoryA (Some ERROR_ALREADY_EXISTS), CreateFileA (create_file E)]
      \<and> drop 5 (events (snd (main E prior err)))
          = drop 5 (events (snd (main (E\<lparr>create_directory := None\<rparr>) prior err))))
   \<and> (create_directory E = Some e \<and> e \<noteq> ERROR_ALREADY_EXISTS \<longrightarrow>
      main E prior err =
        (1, \<lparr>out_file = prior, last_error = e,
             events = map Stdout msg_header @ [CreateDirectoryA (Some e), Stderr (msg_mkdir_error e)],
             writes_done = 0, result = 0,
             hFile = INVALID_HANDLE_VALUE, hFind = INVALID_HANDLE_VALUE\<rparr>))"
proof (intro conjI impI)
  assume "create_directory E = Some e \<and> e \<noteq> ERROR_ALREADY_EXISTS"
  then show "main E prior err =
        (1, \<lparr>out_file = prior, last_error = e,
             events = map Stdout msg_header @ [CreateDirectoryA (Some e), Stderr (msg_mkdir_error e)],
             writes_done = 0, result = 0,
             hFile = INVALID_HANDLE_VALUE, hFind = INVALID_HANDLE_VALUE\<rparr>)"
    by (simp add: main_directory_failed)
next
  let ?E = "E\<lparr>create_directory := None\<rparr>"
  assume ae: "create_directory E = Some ERROR_ALREADY_EXISTS"
  then have r: "directory_ready E" "directory_ready ?E" by (simp_all add: directory_ready_def)
  have all: "fst (main E prior err) = fst (main ?E prior err)
      \<and> out_file (snd (main E prior err)) = out_file (snd (main ?E prior err))
      \<and> take 6 (events (snd (main E prior err)))
          = map Stdout msg_header @ [CreateDirectoryA (Some ERROR_ALREADY_EXISTS), CreateFileA (create_file E)]
      \<and> drop 5 (events (snd (main E prior err))) = drop 5 (events (snd (main ?E prior err)))"
  proof (cases "create_file E")
    case (Some c)
    then show ?thesis using r ae by (simp add: main_create_failed)
  next
    case None
    show ?thesis
    proof (cases "find_first E")
      case (Inl c)
      then show ?thesis using r ae None by (simp add: main_find_failed)
    next
      case (Inr fd)
      have l: "enum_loop ?E fd (find_next E) (loop_start ?E err)
               = enum_loop E fd (find_next E) (loop_start ?E err)"
        by (rule enum_loop_os_cong) simp_all
      have "core (loop_start E err) = core (loop_start ?E err)" by (simp add: core_def)
      from finish_enum_loop_cong [OF this, of E fd "find_next E"] 
      show ?thesis using r ae None Inr l by (auto simp: main_enumerating core_def)
    qed
  qed
  from all show "fst (main E prior err) = fst (main ?E prior err)" by simp
  from all show "out_file (snd (main E prior err)) = out_file (snd (main ?E prior err))" by simp
  from all show "take 6 (events (snd (main E prior err)))
          = map Stdout msg_header @ [CreateDirectoryA (Some ERROR_ALREADY_EXISTS), CreateFileA (create_file E)]"
    by simp
  from all show "drop 5 (events (snd (main E prior err))) = drop 5 (events (snd (main ?E prior err)))"
    by simp
qed

theorem directory_preparation_outcomes_witness:
  "create_directory demo_os = Some ERROR_ALREADY_EXISTS
   \<and> fst (main demo_os None 0) = fst (main (demo_os\<lparr>create_directory := None\<rparr>) None 0)
   \<and> out_file (snd (main demo_os None 0))
       = out_file (snd (main (demo_os\<lparr>create_directory := None\<rparr>) None 0))
   \<and> create_directory demo_denied_os = Some 5 \<and> (5 :: DWORD) \<noteq> ERROR_ALREADY_EXISTS
   \<and> fst (main demo_denied_os (Some ''old'') 0) = 1
   \<and> out_file (snd (main demo_denied_os (Some ''old'') 0)) = Some ''old''"
proof -
  have h1: "create_directory demo_os = Some ERROR_ALREADY_EXISTS" by (simp add: demo_os_fields)
  have h2: "create_directory demo_denied_os = Some 5 \<and> (5 :: DWORD) \<noteq> ERROR_ALREADY_EXISTS"
    by (simp add: demo_denied_os_def ERROR_ALREADY_EXISTS_def)
  from directory_preparation_outcomes [where E = demo_os and prior = None and err = 0] h1
  have a: "fst (main demo_os None 0) = fst (main (demo_os\<lparr>create_directory := None\<rparr>) None 0)
     \<and> out_file (snd (main demo_os None 0))
         = out_file (snd (main (demo_os\<lparr>create_directory := None\<rparr>) None 0))" by blast
  from directory_preparation_outcomes [where E = demo_denied_os and e = 5
      and prior = "Some ''old''" and err = 0] h2
  have "main demo_denied_os (Some ''old'') 0 =
        (1, \<lparr>out_file = Some ''old'', last_error = 5,
             events = map Stdout msg_header @ [CreateDirectoryA (Some 5), Stderr (msg_mkdir_error 5)],
             writes_done = 0, result = 0,
             hFile = INVALID_HANDLE_VALUE, hFind = INVALID_HANDLE_VALUE\<rparr>)" by blast
  then show ?thesis using h1 h2 a by simp
qed

text \<open>
  C8, as amended. For every run that gets past directory preparation and opens the output
  file, the file after the run does not depend on what it held before (or on whether it
  existed): it holds exactly the bytes that the writes of this run put there. And for every
  run, running the program again with the same answers of the operating system leaves the
  output file as the first run left it.
\<close>

theorem rerun_output_reflects_second_run:
  "(directory_ready E \<and> create_file E = None \<longrightarrow>
      out_file (snd (main E prior err)) = out_file (snd (main E prior' err'))
      \<and> out_file (snd (main E prior err)) = Some (file_of_log (events (snd (main E prior err)))))
   \<and> out_file (snd (main E (out_file (snd (main E prior err))) (last_error (snd (main E prior err)))))
       = out_file (snd (main E prior err))"
proof (cases "directory_ready E \<and> create_file E = None")
  case True
  then have r: "directory_ready E" "create_file E = None" by simp_all
  have "out_file (snd (main E prior err)) = out_file (snd (main E prior' err'))"
    using r by (rule main_out_file_independent)
  moreover have "out_file (snd (main E prior err)) = Some (file_of_log (events (snd (main E prior err))))"
    using r by (rule main_out_file_is_log)
  moreover have "out_file (snd (main E (out_file (snd (main E prior err))) (last_error (snd (main E prior err)))))
       = out_file (snd (main E prior err))"
    using r by (rule main_out_file_independent)
  ultimately show ?thesis by blast
next
  case False
  then show ?thesis using main_out_file_unchanged [of E] by auto
qed

theorem rerun_output_reflects_second_run_witness:
  "directory_ready demo_os \<and> create_file demo_os = None
   \<and> out_file (snd (main demo_os (Some ''old'') 0)) = out_file (snd (main demo_os None 5))
   \<and> out_file (snd (main demo_os (Some ''old'') 0))
       = Some (''a.txt'' @ [TAB] @ ''5'' @ [CR, LF] @ ''b.txt'' @ [TAB] @ ''4294967298'' @ [CR, LF])"
proof -
  have h: "directory_ready demo_os \<and> create_file demo_os = None" by (simp add: demo_os_fields)
  have e: "out_file (snd (main demo_os None 5))
           = Some (''a.txt'' @ [TAB] @ ''5'' @ [CR, LF] @ ''b.txt'' @ [TAB] @ ''4294967298'' @ [CR, LF])"
    by (simp add: demo_run demo_lines)
  from rerun_output_reflects_second_run [where E = demo_os and prior = "Some ''old''" and err = 0
      and prior' = None and err' = 5] h
  have "out_file (snd (main demo_os (Some ''old'') 0)) = out_file (snd (main demo_os None 5))"
    by blast
  then show ?thesis using h e by simp
qed

text \<open>
  C8 as stated fails: a first run lists \<open>a.txt\<close> and \<open>b.txt\<close>; before the second run
  the directory holds \<open>b.txt\<close> only, and the second run cannot open the output file
  (sharing violation). It returns before truncating: the file still holds the lines of the
  first run, whereas the same second run with no file left behind leaves none.
\<close>

theorem failed_second_run_keeps_first_output_counterexample:
  "out_file (snd (main demo_locked_os (out_file (snd (main demo_os None 0)))
                    (last_error (snd (main demo_os None 0)))))
     = Some (entry_line demo_file @ entry_line demo_other)
   \<and> out_file (snd (main demo_locked_os None 0)) = None
   \<and> entries demo_locked_os = [demo_dot, demo_other]"
proof -
  have e: "entries demo_locked_os = [demo_dot, demo_other]"
    by (simp add: entries_def demo_locked_os_def demo_os_fields)
  show ?thesis by (simp add: e demo_run demo_locked_run)
qed

text \<open>
  C9. On every path through \<open>main\<close> each handle is closed exactly once if it was acquired
  and never otherwise: \<open>CloseHandle\<close> is called on the file handle as often as
  \<open>CreateFileA\<close> succeeded, \<open>FindClose\<close> on the enumerator handle as often as
  \<open>FindFirstFileA\<close> succeeded, each at most once, and there is no other close call. The
  calls on handles are, in order, those of the last conjunct.
\<close>

theorem handles_closed_exactly_once:
  "count_list (events (snd (main E prior err))) (CloseHandle FileHandle)
     = count_list (events (snd (main E prior err))) (CreateFileA None)
   \<and> count_list (events (snd (main E prior err))) (FindClose FindHandle)
     = count_list (events (snd (main E prior err))) (FindFirstFileA None)
   \<and> count_list (events (snd (main E prior err))) (CreateFileA None) \<le> 1
   \<and> count_list (events (snd (main E prior err))) (FindFirstFileA None) \<le> 1
   \<and> length (filter is_close (events (snd (main E prior err))))
     = count_list (events (snd (main E prior err))) (CloseHandle FileHandle)
       + count_list (events (snd (main E prior err))) (FindClose FindHandle)
   \<and> filter handle_event (events (snd (main E prior err))) =
     (if \<not> directory_ready E then []
      else CreateFileA (create_file E) #
        (if create_file E \<noteq> None then []
         else case find_first E of
                Inl e \<Rightarrow> [FindFirstFileA (Some e), CloseHandle FileHandle]
              | Inr fd \<Rightarrow> [FindFirstFileA None, FindClose FindHandle, CloseHandle FileHandle]))"
proof -
  let ?evs = "events (snd (main E prior err))"
  let ?h = "filter handle_event ?evs"
  have c: "count_list ?evs (CloseHandle FileHandle) = count_list ?h (CloseHandle FileHandle)"
    "count_list ?evs (CreateFileA None) = count_list ?h (CreateFileA None)"
    "count_list ?evs (FindClose FindHandle) = count_list ?h (FindClose FindHandle)"
    "count_list ?evs (FindFirstFileA None) = count_list ?h (FindFirstFileA None)"
    by (simp_all add: count_list_filter)
  have l: "length (filter is_close ?evs) = length (filter is_close ?h)"
    by (simp only: filter_is_close)
  show ?thesis
    unfolding c l unfolding main_handle_log
    by (auto split: sum.splits)
qed

theorem handles_closed_exactly_once_witness:
  "count_list (events (snd (main demo_os None 0))) (CloseHandle FileHandle) = 1
   \<and> count_list (events (snd (main demo_os None 0))) (FindClose FindHandle) = 1
   \<and> count_list (events (snd (main demo_unlistable_os None 0))) (CloseHandle FileHandle) = 1
   \<and> count_list (events (snd (main demo_unlistable_os None 0))) (FindClose FindHandle) = 0
   \<and> length (filter is_close (events (snd (main demo_locked_os None 0)))) = 0"
proof -
  have a: "count_list (events (snd (main demo_os None 0))) (CreateFileA None) = 1"
    "count_list (events (snd (main demo_os None 0))) (FindFirstFileA None) = 1"
    "count_list (events (snd (main demo_unlistable_os None 0))) (CreateFileA None) = 1"
    "count_list (events (snd (main demo_unlistable_os None 0))) (FindFirstFileA None) = 0"
    "count_list (events (snd (main demo_locked_os None 0))) (CreateFileA None) = 0"
    "count_list (events (snd (main demo_locked_os None 0))) (FindFirstFileA None) = 0"
    by (simp_all add: demo_run demo_unlistable_run demo_locked_run msg_header_def)
  show ?thesis
    using a handles_closed_exactly_once [where E = demo_os and prior = None and err = 0]
      handles_closed_exactly_once [where E = demo_unlistable_os and prior = None and err = 0]
      handles_closed_exactly_once [where E = demo_locked_os and prior = None and err = 0]
    by simp
qed

text \<open>
  C10. If the enumeration cannot start after the output file was opened, the run returns 1,
  the output file exists and is empty whatever it held before, and the log shows that no
  \<open>WriteFile\<close> was called: after \<open>FindFirstFileA\<close> come only the error message and the
  closing of the file handle.
\<close>

theorem enumeration_start_failure_destroys_prior_content:
  assumes "directory_ready E" "create_file E = None" "find_first E = Inl e"
  shows "fst (main E prior err) = 1
       \<and> out_file (snd (main E prior err)) = Some []
       \<and> events (snd (main E prior err))
           = map Stdout msg_header
               @ [CreateDirectoryA (create_directory E), CreateFileA None, FindFirstFileA (Some e),
                  Stderr (msg_find_error e), CloseHandle FileHandle]"
  using assms by (simp add: main_find_failed)

theorem enumeration_start_failure_destroys_prior_content_witness:
  "directory_ready demo_unlistable_os \<and> create_file demo_unlistable_os = None
   \<and> find_first demo_unlistable_os = Inl 2
   \<and> fst (main demo_unlistable_os (Some ''old'') 0) = 1
   \<and> out_file (snd (main demo_unlistable_os (Some ''old'') 0)) = Some []"
proof -
  have h: "directory_ready demo_unlistable_os" "create_file demo_unlistable_os = None"
    "find_first demo_unlistable_os = Inl 2"
    by (simp_all add: demo_unlistable_os_def demo_os_def directory_ready_def)
  from enumeration_start_failure_destroys_prior_content [OF h, where prior = "Some ''old''" and err = 0]
  show ?thesis using h by simp
qed

end
